theory Spec2Isabelle
  imports Main
begin

section \<open>JavaScript values\<close>

text \<open>
  The values the reactive core handles. A finite number is abstracted to an integer and
  \<open>NaN\<close> is kept apart, because the code tests self-inequality; objects and arrays
  are references into a heap, so that reference identity is equality of addresses.
\<close>

type_synonym addr = nat

datatype jsval = Undefined | Null | Bool bool | NaN | Num int | Str string | Ref addr

text \<open>The operator \<^verbatim>\<open>===\<close>: identity, except that \<open>NaN\<close> is not equal to itself.\<close>

definition strict_eq :: "jsval \<Rightarrow> jsval \<Rightarrow> bool" where
  "strict_eq a b \<longleftrightarrow> a = b \<and> a \<noteq> NaN"

text \<open>
  Modelled from the spec: \<^verbatim>\<open>isObject\<close> of \<^verbatim>\<open>shared/util\<close> is not among the
  sources; it holds of the non-primitive references (``objects/arrays'') and of nothing else.
\<close>

definition isObject :: "jsval \<Rightarrow> bool" where
  "isObject v = (case v of Ref _ \<Rightarrow> True | _ \<Rightarrow> False)"

section \<open>Subject (Dep) and the active-Subscriber stack\<close>

text \<open>
  \<^verbatim>\<open>src/core/observer/watcher.js\<close> imports \<^verbatim>\<open>Dep\<close>, \<^verbatim>\<open>pushTarget\<close> and
  \<^verbatim>\<open>popTarget\<close> from \<^verbatim>\<open>./dep\<close> and \<^verbatim>\<open>handleError\<close> and
  \<^verbatim>\<open>invokeWithErrorHandling\<close> from \<^verbatim>\<open>../util/index\<close>; none of these files is among
  the sources. A Dep is identified by its id (the spec: ``identity (monotonic id)''), a
  Watcher by its id, and the system state holds every Dep's subscriber list, the
  active-Subscriber stack (top first), the calls the diagnostic channel received and the
  callback invocations made so far.
\<close>

record sys =
  subs :: "nat \<Rightarrow> nat list"
  targetStack :: "nat list"
  errors :: "(string \<times> string) list"
  calls :: "(jsval \<times> jsval) list"

text \<open>
  Modelled from the spec: \<^verbatim>\<open>Dep.addSub\<close> and \<^verbatim>\<open>Dep.removeSub\<close> (dep.js) are
  ``list insert/remove by reference'' on a list in subscription order.
\<close>

definition addSub :: "nat \<Rightarrow> nat \<Rightarrow> sys \<Rightarrow> sys" where
  "addSub d sub s = s\<lparr>subs := (subs s)(d := subs s d @ [sub])\<rparr>"

definition removeSub :: "nat \<Rightarrow> nat \<Rightarrow> sys \<Rightarrow> sys" where
  "removeSub d sub s = s\<lparr>subs := (subs s)(d := remove1 sub (subs s d))\<rparr>"


text \<open>
  Modelled from the spec: \<^verbatim>\<open>pushTarget\<close> and \<^verbatim>\<open>popTarget\<close> (dep.js) keep the active
  Subscriber as a stack, ``popping restores the previous active Subscriber exactly''.
\<close>

definition pushTarget :: "nat \<Rightarrow> sys \<Rightarrow> sys" where
  "pushTarget t s = s\<lparr>targetStack := t # targetStack s\<rparr>"

definition popTarget :: "sys \<Rightarrow> sys" where
  "popTarget s = s\<lparr>targetStack := tl (targetStack s)\<rparr>"

text \<open>
  Modelled from the spec: \<^verbatim>\<open>handleError\<close> (util/error.js) is the diagnostic channel,
  ``invoked with (error, owningContext, descriptivePhrase)''; ``by contract this never
  throws''. The model records the error and the phrase.
\<close>

definition handleError :: "string \<Rightarrow> string \<Rightarrow> sys \<Rightarrow> sys" where
  "handleError err info s = s\<lparr>errors := errors s @ [(err, info)]\<rparr>"

text \<open>
  The template literals of \<^verbatim>\<open>get\<close> and \<^verbatim>\<open>run\<close> put the Watcher's expression
  between double quotes.
\<close>

definition quoted :: "string \<Rightarrow> string" where
  "quoted x = CHR 0x22 # x @ [CHR 0x22]"

text \<open>
  A callback is a user function: given the new and the old value it either returns
  (\<open>None\<close>) or throws (\<open>Some err\<close>).
\<close>

type_synonym callback = "jsval \<Rightarrow> jsval \<Rightarrow> string option"

text \<open>
  Modelled from the spec: \<^verbatim>\<open>invokeWithErrorHandling\<close> (util/error.js) calls the handler
  and, when it throws, the error is ``caught and reported through an error channel rather
  than propagating''. The call is recorded in \<open>calls\<close>.
\<close>

definition invokeWithErrorHandling :: "callback \<Rightarrow> jsval \<Rightarrow> jsval \<Rightarrow> string \<Rightarrow> sys \<Rightarrow> sys" where
  "invokeWithErrorHandling cb v oldValue info s =
     (let s1 = s\<lparr>calls := calls s @ [(v, oldValue)]\<rparr>
      in case cb v oldValue of None \<Rightarrow> s1 | Some err \<Rightarrow> handleError err info s1)"

section \<open>Subscriber (Watcher)\<close>

text \<open>
  The fields of \<^verbatim>\<open>class Watcher\<close> that the methods below read or write; \<open>wid\<close> is
  the field \<^verbatim>\<open>id\<close> and \<open>wvalue\<close> the field \<^verbatim>\<open>value\<close>.
\<close>

record watcher =
  wid :: nat
  expression :: string
  deep :: bool
  user :: bool
  lazy :: bool
  sync :: bool
  dirty :: bool
  active :: bool
  deps :: "nat list"
  newDeps :: "nat list"
  depIds :: "nat set"
  newDepIds :: "nat set"
  wvalue :: jsval

text \<open>\<^verbatim>\<open>Watcher.addDep\<close> (watcher.js, 175--192).\<close>

definition addDep :: "nat \<Rightarrow> watcher \<times> sys \<Rightarrow> watcher \<times> sys" where
  "addDep d = (\<lambda>(w, s).
     if d \<notin> newDepIds w then
       (w\<lparr>newDepIds := insert d (newDepIds w), newDeps := newDeps w @ [d]\<rparr>,
        if d \<notin> depIds w then addSub d (wid w) s else s)
     else (w, s))"

text \<open>
  \<^verbatim>\<open>Watcher.cleanupDeps\<close> (watcher.js, 198--228). The loop \<^verbatim>\<open>while (i--)\<close> walks
  \<^verbatim>\<open>this.deps\<close> from its last element to its first; the two swaps exchange the set
  and array objects, and the old ones are emptied.
\<close>

definition cleanupDeps :: "watcher \<times> sys \<Rightarrow> watcher \<times> sys" where
  "cleanupDeps = (\<lambda>(w, s).
     (w\<lparr>depIds := newDepIds w, newDepIds := {}, deps := newDeps w, newDeps := []\<rparr>,
      fold (\<lambda>d s'. if d \<notin> newDepIds w then removeSub d (wid w) s' else s')
        (rev (deps w)) s))"

text \<open>
  One run of \<^verbatim>\<open>this.getter\<close> is described by what the Watcher can see of it: the Deps
  whose \<^verbatim>\<open>depend()\<close> it reaches while this Watcher is the active Subscriber (each
  calls \<^verbatim>\<open>this.addDep\<close>), in order, and how it completes. Likewise
  \<^verbatim>\<open>traverse(value)\<close>, which returns at once on a value that is no object:
  \<open>deepReads\<close> are the Deps it reaches on an object, and \<open>deepThrows\<close> is the error
  that ends it there, if one does (a property getter that throws, or the engine's
  \<^verbatim>\<open>RangeError\<close> when the recursion exhausts the stack).
\<close>

datatype completion = Returns jsval | Throws string

record evaluation =
  reads :: "nat list"
  completion :: completion
  deepReads :: "nat list"
  deepThrows :: "string option"

text \<open>
  \<^verbatim>\<open>Watcher.get\<close> (watcher.js, 138--170). The result is \<open>Inl err\<close> when the call
  throws \<open>err\<close> and \<open>Inr value\<close> when it returns; the state is the one left behind
  in either case. \<^verbatim>\<open>traverse(value)\<close> is the first statement of the \<^verbatim>\<open>finally\<close>
  block and nothing catches what it throws: the error then leaves \<^verbatim>\<open>get\<close> at once,
  before \<^verbatim>\<open>popTarget()\<close> and \<^verbatim>\<open>this.cleanupDeps()\<close>.
\<close>

definition get :: "evaluation \<Rightarrow> watcher \<times> sys \<Rightarrow> (string + jsval) \<times> watcher \<times> sys" where
  "get e = (\<lambda>(w, s).
     let s1 = pushTarget (wid w) s;
         (w2, s2) = fold addDep (reads e) (w, s1);
         (thrown, v, s3) =
           (case completion e of
              Returns r \<Rightarrow> (None, r, s2)
            | Throws err \<Rightarrow>
                if user w2 then
                  (None, Undefined,
                   handleError err (''getter for watcher '' @ quoted (expression w2)) s2)
                else (Some err, Undefined, s2));
         (w4, s4) =
           (if deep w2 then fold addDep (if isObject v then deepReads e else []) (w2, s3)
            else (w2, s3))
     in case (if deep w2 \<and> isObject v then deepThrows e else None) of
          Some err \<Rightarrow> (Inl err, w4, s4)
        | None \<Rightarrow>
            (let s5 = popTarget s4;
                 (w6, s6) = cleanupDeps (w4, s5)
             in (case thrown of None \<Rightarrow> Inr v | Some err \<Rightarrow> Inl err, w6, s6)))"

text \<open>
  \<^verbatim>\<open>Watcher.run\<close> (watcher.js, 249--279). The first component is the error the call
  throws, if any. An internally owned Watcher calls \<^verbatim>\<open>this.cb\<close> directly, so what the
  callback throws propagates.
\<close>

definition run :: "callback \<Rightarrow> evaluation \<Rightarrow> watcher \<times> sys \<Rightarrow> string option \<times> watcher \<times> sys" where
  "run cb e = (\<lambda>(w, s).
     if active w then
       (case get e (w, s) of
          (Inl err, w1, s1) \<Rightarrow> (Some err, w1, s1)
        | (Inr v, w1, s1) \<Rightarrow>
            if \<not> strict_eq v (wvalue w1) \<or> isObject v \<or> deep w1 then
              (let oldValue = wvalue w1; w2 = w1\<lparr>wvalue := v\<rparr>
               in if user w2 then
                    (None, w2,
                     invokeWithErrorHandling cb v oldValue
                       (''callback for watcher '' @ quoted (expression w2)) s1)
                  else (cb v oldValue, w2, s1\<lparr>calls := calls s1 @ [(v, oldValue)]\<rparr>))
            else (None, w1, s1))
     else (None, w, s))"

section \<open>Microtask primitive (nextTick)\<close>

text \<open>
  \<^verbatim>\<open>nextTick\<close> and \<^verbatim>\<open>flushCallbacks\<close> (the second file of
  \<^verbatim>\<open>src/core/util/options.js\<close>, lines 702--715 and 794--825). A queued callback is user
  code; the model describes it by what it does, in order: it leaves a marker, it calls
  \<^verbatim>\<open>nextTick\<close> itself, or it throws, which ends it.
\<close>

datatype action = Emit nat | Fail string | Schedule "action list option" jsval

text \<open>
  The arrow function that \<^verbatim>\<open>nextTick\<close> pushes closes over \<^verbatim>\<open>cb\<close>, \<^verbatim>\<open>ctx\<close> and
  \<^verbatim>\<open>_resolve\<close>. \<^verbatim>\<open>_resolve\<close> is assigned by the executor of \<^verbatim>\<open>new Promise\<close>, which
  runs before \<^verbatim>\<open>nextTick\<close> returns and so before the closure can run; the model stores
  the Promise (by its number) in the closure when it is built.
\<close>

datatype wrapper = Wrapper "action list option" jsval "nat option"

datatype tevent = Ran nat | Handled string string | Resolved nat jsval

text \<open>
  The module state: the array \<^verbatim>\<open>callbacks\<close>, the flag \<^verbatim>\<open>pending\<close>, the number of
  flushes that \<^verbatim>\<open>timerFunc\<close> has handed to the platform, the number of Promises created,
  and a log of what has been observed: markers of callbacks, calls of
  \<^verbatim>\<open>handleError(e, ctx, 'nextTick')\<close>, and Promises resolved.
\<close>

record ticker =
  callbacks :: "wrapper list"
  pending :: bool
  timers :: nat
  promises :: nat
  tlog :: "tevent list"

text \<open>
  Each of the four definitions of \<^verbatim>\<open>timerFunc\<close> (Promise, MutationObserver,
  setImmediate, setTimeout) asks the platform to call \<^verbatim>\<open>flushCallbacks\<close> once, later.
\<close>

definition timerFunc :: "ticker \<Rightarrow> ticker" where
  "timerFunc t = t\<lparr>timers := Suc (timers t)\<rparr>"

text \<open>
  \<^verbatim>\<open>nextTick(cb, ctx)\<close>. \<open>hasPromise\<close> is the platform's answer to
  \<^verbatim>\<open>typeof Promise !== 'undefined'\<close>. The result is the Promise returned, if any.
\<close>

definition nextTick :: "bool \<Rightarrow> action list option \<Rightarrow> jsval \<Rightarrow> ticker \<Rightarrow> nat option \<times> ticker" where
  "nextTick hasPromise cb ctx t =
     (let p = (if cb = None \<and> hasPromise then Some (promises t) else None);
          t1 = t\<lparr>callbacks := callbacks t @ [Wrapper cb ctx p]\<rparr>;
          t2 = (if \<not> pending t1 then timerFunc (t1\<lparr>pending := True\<rparr>) else t1)
      in (p, case p of None \<Rightarrow> t2 | Some i \<Rightarrow> t2\<lparr>promises := Suc (promises t2)\<rparr>))"

text \<open>Running the body of a user callback: the error it throws, if any, and the state.\<close>

fun run_actions :: "bool \<Rightarrow> action list \<Rightarrow> ticker \<Rightarrow> string option \<times> ticker" where
  "run_actions hasPromise [] t = (None, t)"
| "run_actions hasPromise (Emit n # as) t = run_actions hasPromise as (t\<lparr>tlog := tlog t @ [Ran n]\<rparr>)"
| "run_actions hasPromise (Fail e # as) t = (Some e, t)"
| "run_actions hasPromise (Schedule cb ctx # as) t =
     run_actions hasPromise as (snd (nextTick hasPromise cb ctx t))"

text \<open>
  The pushed arrow function: \<^verbatim>\<open>cb.call(ctx)\<close> inside \<^verbatim>\<open>try\<close>, with
  \<^verbatim>\<open>handleError(e, ctx, 'nextTick')\<close> in the \<^verbatim>\<open>catch\<close>; without \<^verbatim>\<open>cb\<close>,
  \<^verbatim>\<open>_resolve(ctx)\<close> when \<^verbatim>\<open>_resolve\<close> is set.
\<close>

definition invoke :: "bool \<Rightarrow> wrapper \<Rightarrow> ticker \<Rightarrow> ticker" where
  "invoke hasPromise w t =
     (case w of Wrapper cb ctx p \<Rightarrow>
        (case cb of
           Some body \<Rightarrow>
             (case run_actions hasPromise body t of
                (None, t') \<Rightarrow> t'
              | (Some e, t') \<Rightarrow> t'\<lparr>tlog := tlog t' @ [Handled e ''nextTick'']\<rparr>)
         | None \<Rightarrow>
             (case p of Some i \<Rightarrow> t\<lparr>tlog := tlog t @ [Resolved i ctx]\<rparr> | None \<Rightarrow> t)))"

text \<open>\<^verbatim>\<open>flushCallbacks\<close>: the loop runs over the copy made before the queue is emptied.\<close>

definition flushCallbacks :: "bool \<Rightarrow> ticker \<Rightarrow> ticker" where
  "flushCallbacks hasPromise t =
     (let t1 = t\<lparr>pending := False\<rparr>;
          copies = callbacks t1;
          t2 = t1\<lparr>callbacks := []\<rparr>
      in fold (invoke hasPromise) copies t2)"

text \<open>
  What one queued closure is expected to leave in the log when it runs, whatever the
  closures before it did: the markers of its callback up to the first throw, then the
  call of \<^verbatim>\<open>handleError\<close> if it threw; or the resolution of its Promise.
\<close>

fun effects :: "action list \<Rightarrow> tevent list" where
  "effects [] = []"
| "effects (Emit n # as) = Ran n # effects as"
| "effects (Fail e # as) = [Handled e ''nextTick'']"
| "effects (Schedule cb ctx # as) = effects as"

definition wrapper_effects :: "wrapper \<Rightarrow> tevent list" where
  "wrapper_effects w =
     (case w of Wrapper cb ctx p \<Rightarrow>
        (case cb of Some body \<Rightarrow> effects body
         | None \<Rightarrow> (case p of Some i \<Rightarrow> [Resolved i ctx] | None \<Rightarrow> [])))"

text \<open>The \<^verbatim>\<open>nextTick\<close> calls a callback makes before it ends, as (cb, ctx).\<close>

fun requests :: "action list \<Rightarrow> (action list option \<times> jsval) list" where
  "requests [] = []"
| "requests (Emit n # as) = requests as"
| "requests (Fail e # as) = []"
| "requests (Schedule cb ctx # as) = (cb, ctx) # requests as"

definition wrapper_requests :: "wrapper \<Rightarrow> (action list option \<times> jsval) list" where
  "wrapper_requests w = (case w of Wrapper cb ctx p \<Rightarrow>
     (case cb of Some body \<Rightarrow> requests body | None \<Rightarrow> []))"

definition payload :: "wrapper \<Rightarrow> action list option \<times> jsval" where
  "payload w = (case w of Wrapper cb ctx p \<Rightarrow> (cb, ctx))"

text \<open>Two states of the queue used as examples: nothing queued; four closures queued.\<close>

definition idle :: ticker where
  "idle = \<lparr>callbacks = [], pending = False, timers = 0, promises = 0, tlog = []\<rparr>"

definition queued :: ticker where
  "queued = \<lparr>callbacks =
       [Wrapper (Some [Emit 1, Schedule (Some [Emit 9]) Undefined, Emit 2]) Undefined None,
        Wrapper (Some [Emit 3, Fail ''boom'', Emit 4]) Undefined None,
        Wrapper None (Str ''vm'') (Some 0),
        Wrapper (Some [Emit 5]) Undefined None],
     pending = True, timers = 1, promises = 1, tlog = []\<rparr>"

section \<open>Deep traversal (traverse)\<close>

text \<open>
  \<^verbatim>\<open>src/core/observer/traverse.js\<close>. What \<^verbatim>\<open>_traverse\<close> reads of an object: whether
  it is frozen, whether it is a VNode, the id of the Dep of its Observer when it has an
  \<^verbatim>\<open>__ob__\<close>, and the values \<^verbatim>\<open>val[i]\<close> (an array) or \<^verbatim>\<open>val[keys[i]]\<close> (an
  object), in index or key order. The heap maps the address of each object to this view;
  reading a property is taken to return the stored value.
\<close>

record node =
  children :: "jsval list"
  frozen :: bool
  isVNode :: bool
  obDepId :: "nat option"

text \<open>
  \<^verbatim>\<open>_traverse(val, seen)\<close> (lines 19--56). The function recurses inside a loop, so the
  model has two kinds of task: \<open>Inl val\<close> is the body of \<^verbatim>\<open>_traverse\<close> on
  \<open>val\<close>, and \<open>Inr vs\<close> is the rest of the loop \<^verbatim>\<open>while (i--)\<close>, which visits
  the values from the last to the first (so the first call is on \<open>rev (children n)\<close>).
  The result is the set \<open>seen\<close> when the call returns, and \<open>None\<close> when it does not
  return. A reference that the heap does not hold is treated as no object.
\<close>

partial_function (option) traverse_rec ::
  "(addr \<Rightarrow> node option) \<Rightarrow> jsval + jsval list \<Rightarrow> nat set \<Rightarrow> nat set option" where
  "traverse_rec h task seen =
     (case task of
        Inl val \<Rightarrow>
          (case val of
             Ref a \<Rightarrow>
               (case h a of
                  None \<Rightarrow> Some seen
                | Some n \<Rightarrow>
                    if frozen n \<or> isVNode n then Some seen
                    else (case obDepId n of
                            Some depId \<Rightarrow>
                              if depId \<in> seen then Some seen
                              else traverse_rec h (Inr (rev (children n))) (insert depId seen)
                          | None \<Rightarrow> traverse_rec h (Inr (rev (children n))) seen))
           | _ \<Rightarrow> Some seen)
      | Inr [] \<Rightarrow> Some seen
      | Inr (v # vs) \<Rightarrow>
          Option.bind (traverse_rec h (Inl v) seen) (\<lambda>seen'. traverse_rec h (Inr vs) seen'))"

text \<open>
  \<^verbatim>\<open>traverse(val)\<close> (lines 14--17), with the module's \<^verbatim>\<open>seenObjects\<close> passed in and
  returned: \<^verbatim>\<open>seenObjects.clear()\<close> runs when \<^verbatim>\<open>_traverse\<close> has returned.
\<close>

definition traverse :: "(addr \<Rightarrow> node option) \<Rightarrow> jsval \<Rightarrow> nat set \<Rightarrow> nat set option" where
  "traverse h val seenObjects = map_option (\<lambda>seen. {}) (traverse_rec h (Inl val) seenObjects)"

text \<open>
  An object that \<^verbatim>\<open>_traverse\<close> walks into without recording anything: neither frozen
  nor a VNode, and without \<^verbatim>\<open>__ob__\<close>.
\<close>

definition unmarked :: "(addr \<Rightarrow> node option) \<Rightarrow> addr \<Rightarrow> bool" where
  "unmarked h a = (case h a of None \<Rightarrow> False
     | Some n \<Rightarrow> \<not> frozen n \<and> \<not> isVNode n \<and> obDepId n = None)"

text \<open>
  No cycle runs through such objects only: a rank falls along every reference from one of
  them to another.
\<close>

definition descends :: "(addr \<Rightarrow> node option) \<Rightarrow> (addr \<Rightarrow> nat) \<Rightarrow> bool" where
  "descends h rank \<longleftrightarrow>
     (\<forall>a b n. h a = Some n \<and> unmarked h a \<and> Ref b \<in> set (children n) \<and> unmarked h b
        \<longrightarrow> rank b < rank a)"

definition depIds_of :: "(addr \<Rightarrow> node option) \<Rightarrow> nat set" where
  "depIds_of h = {d. \<exists>a n. h a = Some n \<and> obDepId n = Some d}"

text \<open>
  Two heaps used as examples: an object without Observer whose property holds the object
  itself (what \<^verbatim>\<open>Object.preventExtensions\<close> or a class instance gives); and a graph in
  which two observed objects refer to each other, reached from objects without Observer.
\<close>

definition selfloop :: "addr \<Rightarrow> node option" where
  "selfloop = Map.empty(1 \<mapsto> \<lparr>children = [Ref 1], frozen = False, isVNode = False, obDepId = None\<rparr>)"

definition graph0 :: "addr \<Rightarrow> node option" where
  "graph0 = Map.empty
     (1 \<mapsto> \<lparr>children = [Ref 2, Ref 5, Num 7], frozen = False, isVNode = False, obDepId = None\<rparr>,
      2 \<mapsto> \<lparr>children = [Ref 3], frozen = False, isVNode = False, obDepId = Some 10\<rparr>,
      3 \<mapsto> \<lparr>children = [Ref 2, Ref 4], frozen = False, isVNode = False, obDepId = Some 11\<rparr>,
      4 \<mapsto> \<lparr>children = [Ref 4], frozen = True, isVNode = False, obDepId = None\<rparr>,
      5 \<mapsto> \<lparr>children = [Ref 3, Str ''x''], frozen = False, isVNode = False, obDepId = None\<rparr>)"

definition rank0 :: "addr \<Rightarrow> nat" where
  "rank0 a = (if a = 1 then 1 else 0)"

section \<open>Accessor installer (defineReactive)\<close>

text \<open>
  The file \<^verbatim>\<open>src/unnamed/part_002\<close> (\<^verbatim>\<open>core/observer/index.js\<close>) and the array
  interception of \<^verbatim>\<open>src/unnamed/part_001\<close> (\<^verbatim>\<open>core/observer/array.js\<close>).

  Calls that leave the function being modelled are recorded, in order, as events:
  \<^verbatim>\<open>warn\<close>, the \<^verbatim>\<open>customSetter\<close> passed to \<^verbatim>\<open>defineReactive\<close>, \<^verbatim>\<open>observe(v)\<close>,
  \<^verbatim>\<open>notify()\<close> and \<^verbatim>\<open>depend()\<close> on the Dep with a given id (\<^verbatim>\<open>Dep\<close> is not among the
  sources), \<^verbatim>\<open>dependArray(v)\<close>, and the original method of \<^verbatim>\<open>Array.prototype\<close> with
  its arguments. What \<^verbatim>\<open>observe\<close> returns is a parameter \<open>obs\<close> of the functions below,
  an Observer being named by the id of its Dep; what the call does to the value observed
  is not part of this model. \<open>dev\<close> stands for
  \<^verbatim>\<open>process.env.NODE_ENV !== 'production'\<close>, \<open>tgt\<close> for \<^verbatim>\<open>Dep.target\<close> being set,
  and \<open>isArr\<close> for \<^verbatim>\<open>Array.isArray\<close>.
\<close>

datatype mutation = Push | Pop | Shift | Unshift | Splice | Sort | Reverse

datatype event =
    Warn string
  | CustomSetter
  | Observe jsval
  | Notify nat
  | Depend nat
  | DependArray jsval
  | Apply mutation "jsval list"

text \<open>
  The closure that \<^verbatim>\<open>defineReactive\<close> creates holds \<^verbatim>\<open>val\<close>, \<^verbatim>\<open>childOb\<close>,
  \<^verbatim>\<open>dep\<close>, the \<^verbatim>\<open>getter\<close> and \<^verbatim>\<open>setter\<close> of the property it replaces,
  \<^verbatim>\<open>shallow\<close>, and whether a \<^verbatim>\<open>customSetter\<close> was given. The accessors replaced
  are absent (a data property, or none), user functions over a state \<open>'u\<close> of their own
  (a getter reads it, a setter changes it), or the pair installed by an earlier
  \<^verbatim>\<open>defineReactive\<close> on the same property, whose closure the new one then holds.
\<close>

datatype 'u accessors =
    NoAccessors
  | UserAccessors "('u \<Rightarrow> jsval) option" "(jsval \<Rightarrow> 'u \<Rightarrow> 'u) option"
  | InstalledAccessors "'u rfield"
and 'u rfield =
    RField (val: jsval) (childOb: "nat option") (dep: nat) (pre: "'u accessors")
      (shallow: bool) (customSetter: bool)

fun has_getter :: "'u accessors \<Rightarrow> bool" where
  "has_getter NoAccessors = False"
| "has_getter (UserAccessors g s) = (g \<noteq> None)"
| "has_getter (InstalledAccessors f) = True"

fun has_setter :: "'u accessors \<Rightarrow> bool" where
  "has_setter NoAccessors = False"
| "has_setter (UserAccessors g s) = (s \<noteq> None)"
| "has_setter (InstalledAccessors f) = True"

text \<open>
  \<^verbatim>\<open>reactiveGetter\<close> (part_002, 200--228): the value and the calls made.
  \<open>getter_call\<close> is \<^verbatim>\<open>getter.call(obj)\<close>, \<open>None\<close> when there is no getter.
\<close>

fun reactiveGetter :: "bool \<Rightarrow> (jsval \<Rightarrow> bool) \<Rightarrow> 'u \<Rightarrow> 'u rfield \<Rightarrow> jsval \<times> event list"
  and getter_call :: "bool \<Rightarrow> (jsval \<Rightarrow> bool) \<Rightarrow> 'u \<Rightarrow> 'u accessors \<Rightarrow> (jsval \<times> event list) option"
where
  "getter_call tgt isArr u NoAccessors = None"
| "getter_call tgt isArr u (UserAccessors g s) = map_option (\<lambda>gf. (gf u, [])) g"
| "getter_call tgt isArr u (InstalledAccessors f) = Some (reactiveGetter tgt isArr u f)"
| "reactiveGetter tgt isArr u (RField v c d p sh cs) =
     (let (value, gev) = (case getter_call tgt isArr u p of Some r \<Rightarrow> r | None \<Rightarrow> (v, []))
      in (value,
          gev @
          (if tgt then
             Depend d #
             (case c of
                Some ob \<Rightarrow> Depend ob # (if isArr value then [DependArray value] else [])
              | None \<Rightarrow> [])
           else [])))"

text \<open>
  \<^verbatim>\<open>reactiveSetter\<close> (part_002, 229--252): the closure, the user state and the calls
  made. \<open>setter_call\<close> is \<^verbatim>\<open>setter.call(obj, newVal)\<close>, \<open>None\<close> when there is no
  setter.
\<close>

fun reactiveSetter ::
    "bool \<Rightarrow> bool \<Rightarrow> (jsval \<Rightarrow> bool) \<Rightarrow> (jsval \<Rightarrow> nat option) \<Rightarrow> jsval \<Rightarrow> 'u \<Rightarrow> 'u rfield
      \<Rightarrow> 'u rfield \<times> 'u \<times> event list"
  and setter_call ::
    "bool \<Rightarrow> bool \<Rightarrow> (jsval \<Rightarrow> bool) \<Rightarrow> (jsval \<Rightarrow> nat option) \<Rightarrow> jsval \<Rightarrow> 'u \<Rightarrow> 'u accessors
      \<Rightarrow> ('u accessors \<times> 'u \<times> event list) option"
where
  "setter_call dev tgt isArr obs newVal u NoAccessors = None"
| "setter_call dev tgt isArr obs newVal u (UserAccessors g s) =
     map_option (\<lambda>sf. (UserAccessors g s, sf newVal u, [])) s"
| "setter_call dev tgt isArr obs newVal u (InstalledAccessors f) =
     (case reactiveSetter dev tgt isArr obs newVal u f of
        (f', u', sev) \<Rightarrow> Some (InstalledAccessors f', u', sev))"
| "reactiveSetter dev tgt isArr obs newVal u (RField v c d p sh cs) =
     (let (value, gev) = (case getter_call tgt isArr u p of Some r \<Rightarrow> r | None \<Rightarrow> (v, []))
      in if strict_eq newVal value \<or> (\<not> strict_eq newVal newVal \<and> \<not> strict_eq value value)
         then (RField v c d p sh cs, u, gev)
         else
           (let cev = (if dev \<and> cs then [CustomSetter] else [])
            in if has_getter p \<and> \<not> has_setter p then (RField v c d p sh cs, u, gev @ cev)
               else
                 (case setter_call dev tgt isArr obs newVal u p of
                    Some (p', u', sev) \<Rightarrow>
                      (RField v (if sh then None else obs newVal) d p' sh cs, u',
                       gev @ cev @ sev @ (if sh then [] else [Observe newVal]) @ [Notify d])
                  | None \<Rightarrow>
                      (RField newVal (if sh then None else obs newVal) d p sh cs, u,
                       gev @ cev @ (if sh then [] else [Observe newVal]) @ [Notify d]))))"

text \<open>
  A property as \<^verbatim>\<open>Object.getOwnPropertyDescriptor\<close> shows it: a data property with its
  value, or an accessor property with its accessors; and whether it is configurable.
\<close>

datatype 'u slot = Data jsval | Accessor "'u accessors"

record 'u property =
  slot :: "'u slot"
  configurable :: bool

definition accessors_of :: "'u property option \<Rightarrow> 'u accessors" where
  "accessors_of property =
     (case property of
        None \<Rightarrow> NoAccessors
      | Some p \<Rightarrow> (case slot p of Data v \<Rightarrow> NoAccessors | Accessor a \<Rightarrow> a))"

text \<open>
  \<^verbatim>\<open>obj[key]\<close> on an own property; a key the object does not own reads as
  \<^verbatim>\<open>undefined\<close> (properties inherited from a prototype are not modelled).
\<close>

definition read_property ::
  "bool \<Rightarrow> (jsval \<Rightarrow> bool) \<Rightarrow> 'u \<Rightarrow> 'u property option \<Rightarrow> jsval \<times> event list" where
  "read_property tgt isArr u property =
     (case property of
        None \<Rightarrow> (Undefined, [])
      | Some p \<Rightarrow>
          (case slot p of
             Data v \<Rightarrow> (v, [])
           | Accessor a \<Rightarrow>
               (case getter_call tgt isArr u a of Some r \<Rightarrow> r | None \<Rightarrow> (Undefined, []))))"

text \<open>
  \<^verbatim>\<open>defineReactive(obj, key, val, customSetter, shallow)\<close> (part_002, 168--253), as a
  function of the descriptor of \<^verbatim>\<open>obj[key]\<close>. \<open>d\<close> is the id of the Dep created in
  its first line; \<open>valArg\<close> is \<open>None\<close> when the call has two arguments
  (\<^verbatim>\<open>arguments.length === 2\<close>). The result is \<open>None\<close> when the function returns at the
  non-configurable property, and otherwise the property it defines together with the
  calls made.
\<close>

definition defineReactive ::
  "bool \<Rightarrow> (jsval \<Rightarrow> bool) \<Rightarrow> (jsval \<Rightarrow> nat option) \<Rightarrow> 'u \<Rightarrow> nat \<Rightarrow> 'u property option \<Rightarrow>
   jsval option \<Rightarrow> bool \<Rightarrow> bool \<Rightarrow> ('u property \<times> event list) option" where
  "defineReactive tgt isArr obs u d property valArg cs sh =
     (if (case property of Some p \<Rightarrow> \<not> configurable p | None \<Rightarrow> False) then None
      else
        (let a = accessors_of property;
             (v, rev) =
               (case valArg of
                  Some v \<Rightarrow> (v, [])
                | None \<Rightarrow>
                    if \<not> has_getter a \<or> has_setter a then read_property tgt isArr u property
                    else (Undefined, []));
             ob = (if sh then None else obs v)
         in Some (\<lparr>slot = Accessor (InstalledAccessors (RField v ob d a sh cs)),
                    configurable = True\<rparr>,
                  rev @ (if sh then [] else [Observe v]))))"

text \<open>
  The calls a setter makes on its own account: \<^verbatim>\<open>customSetter()\<close>,
  \<^verbatim>\<open>observe(newVal)\<close> and \<^verbatim>\<open>dep.notify()\<close>.
\<close>

definition own_call :: "event \<Rightarrow> bool" where
  "own_call e = (case e of Notify d \<Rightarrow> True | Observe v \<Rightarrow> True | CustomSetter \<Rightarrow> True | _ \<Rightarrow> False)"

text \<open>The value a field holds: \<^verbatim>\<open>getter ? getter.call(obj) : val\<close>.\<close>

definition current :: "bool \<Rightarrow> (jsval \<Rightarrow> bool) \<Rightarrow> 'u \<Rightarrow> 'u rfield \<Rightarrow> jsval \<times> event list" where
  "current tgt isArr u f =
     (case getter_call tgt isArr u (pre f) of Some r \<Rightarrow> r | None \<Rightarrow> (val f, []))"

text \<open>
  Examples, over a user state that is one value: a property with a getter that returns
  the state and no setter, the field installed over it, and a field over a data property;
  a property with that getter and a setter that stores the value written, and an accessor
  property that has neither getter nor setter
  (\<^verbatim>\<open>Object.defineProperty(obj, key, {get: undefined, set: undefined, configurable: true})\<close>),
  each with the field installed over it.
\<close>

definition readonly :: "jsval accessors" where
  "readonly = UserAccessors (Some (\<lambda>u. u)) None"

definition readonly_field :: "jsval rfield" where
  "readonly_field = RField Undefined None 7 readonly False False"

definition plain_field :: "jsval \<Rightarrow> jsval rfield" where
  "plain_field v = RField v None 3 NoAccessors False True"

definition unobserved :: "jsval \<Rightarrow> nat option" where
  "unobserved v = None"

definition no_arrays :: "jsval \<Rightarrow> bool" where
  "no_arrays v = False"

definition readwrite :: "jsval accessors" where
  "readwrite = UserAccessors (Some (\<lambda>u. u)) (Some (\<lambda>newVal u. newVal))"

definition readwrite_field :: "jsval rfield" where
  "readwrite_field = RField (Num 1) None 7 readwrite False False"

definition bare :: "jsval accessors" where
  "bare = UserAccessors None None"

definition bare_field :: "jsval rfield" where
  "bare_field = RField Undefined None 7 bare False False"

section \<open>Containers: array interception, set and del\<close>

text \<open>
  A property key is an array index (a non-negative integer, as a number or as its decimal
  string) or another name.
\<close>

datatype pkey = Idx nat | Name string

text \<open>
  The errors that the JavaScript engine throws; the module code is strict. An array holds
  at most \<open>2 ^ 32 - 1\<close> elements, and its indices are the numbers below that.
\<close>

datatype error = TypeError | RangeError


text \<open>
  An Observer (part_002, 37--106) holds its Dep (by id) and \<^verbatim>\<open>vmCount\<close>; its
  \<^verbatim>\<open>value\<close> is the object that carries it as \<^verbatim>\<open>__ob__\<close>.
\<close>

record observer =
  obDep :: nat
  vmCount :: nat

text \<open>
  An object of the heap: whether it is an array, its elements (an array; its
  \<^verbatim>\<open>length\<close> is the length of this list), its other own properties (but for
  \<^verbatim>\<open>__ob__\<close> and \<^verbatim>\<open>_isVue\<close>, which have fields of their own), the keys found on
  its prototype chain, \<^verbatim>\<open>__ob__\<close>, \<^verbatim>\<open>_isVue\<close>, and whether it is extensible.
\<close>

record 'u obj =
  isArray :: bool
  elems :: "jsval list"
  props :: "pkey \<Rightarrow> 'u property option"
  inherited :: "pkey set"
  ob :: "observer option"
  isVue :: bool
  extensible :: bool

text \<open>
  The state: the heap, the state of the user's accessors, the calls recorded so far, and
  the counter from which \<^verbatim>\<open>new Dep()\<close> takes its id.
\<close>

record 'u world =
  heap :: "addr \<Rightarrow> 'u obj option"
  ustate :: 'u
  events :: "event list"
  depUid :: nat

text \<open>
  \<^verbatim>\<open>Array.prototype\<close> belongs to the platform: its seven mutating methods are a
  parameter \<open>original\<close>, which maps the method, the arguments and the elements to the new
  elements and the result (a value, a newly created array, or the array itself).
\<close>

datatype jsresult = Val jsval | Fresh "jsval list" | This

type_synonym arrayProto = "mutation \<Rightarrow> jsval list \<Rightarrow> jsval list \<Rightarrow> jsval list \<times> jsresult"

text \<open>Recording calls.\<close>

definition emit :: "event list \<Rightarrow> 'u world \<Rightarrow> 'u world" where
  "emit evs w = w\<lparr>events := events w @ evs\<rparr>"

text \<open>\<^verbatim>\<open>Observer.observeArray\<close> (part_002, 101--105): \<^verbatim>\<open>observe\<close> on each item in turn.\<close>

definition observeArray :: "jsval list \<Rightarrow> 'u world \<Rightarrow> 'u world" where
  "observeArray items w = fold (\<lambda>item. emit [Observe item]) items w"

text \<open>
  \<^verbatim>\<open>mutator\<close> (part_001, 30--53) for the method \<open>method\<close>, called on the array
  \<open>this\<close> that the heap holds at \<open>a\<close>. Without \<^verbatim>\<open>__ob__\<close>, \<^verbatim>\<open>ob.observeArray\<close>
  or \<^verbatim>\<open>ob.dep\<close> throws, after the original method has run.
\<close>

definition mutator ::
  "arrayProto \<Rightarrow> mutation \<Rightarrow> jsval list \<Rightarrow> addr \<Rightarrow> 'u obj \<Rightarrow> 'u world \<Rightarrow> (error + jsresult) \<times> 'u world" where
  "mutator original method args a this w =
     (let (elems', result) = original method args (elems this);
          w1 = emit [Apply method args] (w\<lparr>heap := (heap w)(a \<mapsto> this\<lparr>elems := elems'\<rparr>)\<rparr>);
          inserted =
            (case method of
               Push \<Rightarrow> Some args
             | Unshift \<Rightarrow> Some args
             | Splice \<Rightarrow> Some (drop 2 args)
             | _ \<Rightarrow> None)
      in case ob this of
           None \<Rightarrow> (Inl TypeError, w1)
         | Some b \<Rightarrow>
             (let w2 = (case inserted of Some items \<Rightarrow> observeArray items w1 | None \<Rightarrow> w1);
                  w3 = emit [Notify (obDep b)] w2
              in (Inr result, w3)))"



definition warn_del_primitive :: string where
  "warn_del_primitive = ''Cannot delete reactive property on undefined, null, or primitive value''"

definition warn_del_root :: string where
  "warn_del_root = ''Avoid deleting properties on a Vue instance or its root $data - just set it to null.''"

text \<open>
  Modelled from the spec: \<^verbatim>\<open>isUndef\<close> and \<^verbatim>\<open>isPrimitive\<close> (\<^verbatim>\<open>shared/util\<close>) are not
  among the sources; they recognise the ``primitive/\<^verbatim>\<open>null\<close> targets'', which the
  warning of the code lists as ``undefined, null, or primitive value''.
\<close>

definition isUndef :: "jsval \<Rightarrow> bool" where
  "isUndef v \<longleftrightarrow> v = Undefined \<or> v = Null"

definition isPrimitive :: "jsval \<Rightarrow> bool" where
  "isPrimitive v = (case v of Str s \<Rightarrow> True | Num n \<Rightarrow> True | NaN \<Rightarrow> True | Bool b \<Rightarrow> True | _ \<Rightarrow> False)"

text \<open>
  Modelled from the spec: \<^verbatim>\<open>isValidArrayIndex\<close> (\<^verbatim>\<open>shared/util\<close>) is not among the
  sources; it decides the ``index-based set'' of arrays, and holds of the index keys.
\<close>

fun isValidArrayIndex :: "pkey \<Rightarrow> bool" where
  "isValidArrayIndex (Idx n) = True"
| "isValidArrayIndex (Name s) = False"

text \<open>The keys of \<^verbatim>\<open>Object.prototype\<close>, for \<^verbatim>\<open>key in Object.prototype\<close>.\<close>

definition objectPrototype :: "pkey set" where
  "objectPrototype = Name ` {''constructor'', ''hasOwnProperty'', ''isPrototypeOf'',
     ''propertyIsEnumerable'', ''toLocaleString'', ''toString'', ''valueOf'', ''__proto__'',
     ''__defineGetter__'', ''__defineSetter__'', ''__lookupGetter__'', ''__lookupSetter__''}"

text \<open>
  Modelled from the spec: \<^verbatim>\<open>hasOwn\<close> (\<^verbatim>\<open>shared/util\<close>) is not among the sources; it is
  \<^verbatim>\<open>Object.prototype.hasOwnProperty\<close>. An array owns its elements and its
  \<^verbatim>\<open>length\<close>. \<open>key_in\<close> is the operator \<^verbatim>\<open>in\<close> on an object: an own
  property or one of the prototype chain.
\<close>

definition hasOwn :: "'u obj \<Rightarrow> pkey \<Rightarrow> bool" where
  "hasOwn this key \<longleftrightarrow>
     props this key \<noteq> None \<or>
     (isArray this \<and>
      (case key of Idx n \<Rightarrow> n < length (elems this) | Name s \<Rightarrow> s = ''length''))"



text \<open>
  \<^verbatim>\<open>target.splice(...)\<close>: the Observer constructor (part_002, 70--78) puts
  \<^verbatim>\<open>arrayMethods\<close> in front of an array exactly when it gives it \<^verbatim>\<open>__ob__\<close>, so an
  observed array runs \<open>mutator\<close> and any other array the original method.
\<close>

definition splice_call ::
  "arrayProto \<Rightarrow> jsval list \<Rightarrow> addr \<Rightarrow> 'u obj \<Rightarrow> 'u world \<Rightarrow> (error + jsresult) \<times> 'u world" where
  "splice_call original args a this w =
     (if ob this \<noteq> None then mutator original Splice args a this w
      else
        (let (elems', result) = original Splice args (elems this)
         in (Inr result,
             emit [Apply Splice args] (w\<lparr>heap := (heap w)(a \<mapsto> this\<lparr>elems := elems'\<rparr>)\<rparr>))))"

text \<open>The number an index key stands for.\<close>

definition index_of :: "pkey \<Rightarrow> nat" where
  "index_of key = (case key of Idx n \<Rightarrow> n | Name s \<Rightarrow> 0)"





text \<open>
  \<^verbatim>\<open>del(target, key)\<close> (part_002, 295--321). On \<^verbatim>\<open>undefined\<close> and \<^verbatim>\<open>null\<close> the
  read of \<^verbatim>\<open>__ob__\<close> throws; a number or boolean owns no property, so \<^verbatim>\<open>hasOwn\<close>
  fails and the function returns; a string owns its indices and \<^verbatim>\<open>length\<close>, which
  \<^verbatim>\<open>delete\<close> cannot remove, and neither can it remove an array's \<^verbatim>\<open>length\<close>.
\<close>

definition del ::
  "bool \<Rightarrow> arrayProto \<Rightarrow> jsval \<Rightarrow> pkey \<Rightarrow> 'u world \<Rightarrow> (error + jsval) \<times> 'u world" where
  "del dev original target key w =
     (let w0 = (if dev \<and> (isUndef target \<or> isPrimitive target)
                then emit [Warn warn_del_primitive] w
                else w)
      in case (case target of Ref a \<Rightarrow> map_option (Pair a) (heap w0 a) | _ \<Rightarrow> None) of
           None \<Rightarrow>
             (case target of
                Str s \<Rightarrow>
                  if (case key of Idx n \<Rightarrow> n < length s | Name k \<Rightarrow> k = ''length'')
                  then (Inl TypeError, w0)
                  else (Inr Undefined, w0)
              | Num n \<Rightarrow> (Inr Undefined, w0)
              | NaN \<Rightarrow> (Inr Undefined, w0)
              | Bool b \<Rightarrow> (Inr Undefined, w0)
              | _ \<Rightarrow> (Inl TypeError, w0))
         | Some (a, this) \<Rightarrow>
             if isArray this \<and> isValidArrayIndex key then
               (case splice_call original [Num (int (index_of key)), Num 1] a this w0 of
                  (Inl e, w1) \<Rightarrow> (Inl e, w1)
                | (Inr r, w1) \<Rightarrow> (Inr Undefined, w1))
             else if isVue this \<or> (case ob this of Some b \<Rightarrow> vmCount b \<noteq> 0 | None \<Rightarrow> False) then
               (Inr Undefined,
                if dev then emit [Warn warn_del_root] w0
                else w0)
             else if \<not> hasOwn this key then (Inr Undefined, w0)
             else if isArray this \<and> key = Name ''length'' then (Inl TypeError, w0)
             else
               (case props this key of
                  None \<Rightarrow> (Inr Undefined, w0)
                | Some p \<Rightarrow>
                    if \<not> configurable p then (Inl TypeError, w0)
                    else
                      (let w1 = w0\<lparr>heap := (heap w0)(a \<mapsto> this\<lparr>props := (props this)(key := None)\<rparr>)\<rparr>
                       in case ob this of
                            None \<Rightarrow> (Inr Undefined, w1)
                          | Some b \<Rightarrow> (Inr Undefined, emit [Notify (obDep b)] w1))))"

text \<open>The arguments that are new elements, by method.\<close>

definition inserted_by :: "mutation \<Rightarrow> jsval list \<Rightarrow> jsval list" where
  "inserted_by method args =
     (case method of Push \<Rightarrow> args | Unshift \<Rightarrow> args | Splice \<Rightarrow> drop 2 args | _ \<Rightarrow> [])"


definition num_of :: "jsval \<Rightarrow> int" where
  "num_of v = (case v of Num n \<Rightarrow> n | _ \<Rightarrow> 0)"

definition sample_original :: arrayProto where
  "sample_original method args xs =
     (case method of
        Push \<Rightarrow> (xs @ args, Val (Num (int (length (xs @ args)))))
      | Pop \<Rightarrow> (butlast xs, Val (if xs = [] then Undefined else last xs))
      | Shift \<Rightarrow> (tl xs, Val (case xs of [] \<Rightarrow> Undefined | x # rest \<Rightarrow> x))
      | Unshift \<Rightarrow> (args @ xs, Val (Num (int (length (args @ xs)))))
      | Splice \<Rightarrow>
          (case args of
             Num s # Num c # items \<Rightarrow>
               (take (nat s) xs @ items @ drop (nat s + nat c) xs,
                Fresh (take (nat c) (drop (nat s) xs)))
           | _ \<Rightarrow> (xs, Fresh []))
      | Sort \<Rightarrow> (sort_key num_of xs, This)
      | Reverse \<Rightarrow> (rev xs, This))"

definition array0 :: "unit obj" where
  "array0 = \<lparr>isArray = True, elems = [Num 1, Num 2, Num 3], props = (\<lambda>k. None),
     inherited = objectPrototype, ob = Some \<lparr>obDep = 5, vmCount = 0\<rparr>, isVue = False,
     extensible = True\<rparr>"

definition root0 :: "unit obj" where
  "root0 = \<lparr>isArray = False, elems = [],
     props = (\<lambda>k. None)(Name ''a'' \<mapsto>
       \<lparr>slot = Accessor (InstalledAccessors (RField (Num 1) None 6 NoAccessors False False)),
        configurable = True\<rparr>),
     inherited = objectPrototype, ob = Some \<lparr>obDep = 7, vmCount = 1\<rparr>, isVue = False,
     extensible = True\<rparr>"

definition world0 :: "unit world" where
  "world0 = \<lparr>heap = Map.empty(1 \<mapsto> array0, 2 \<mapsto> root0), ustate = (), events = [], depUid = 10\<rparr>"
section \<open>Notions used to state the properties of the Subscriber\<close>

text \<open>
  The invariant of a Watcher and the subscriber lists: the Watcher stands at most once in
  every list, only in lists of Deps it holds in \<^verbatim>\<open>depIds\<close> or \<^verbatim>\<open>newDepIds\<close>, and
  the identity sets are the sets of the two Dep arrays.
\<close>

definition tracked :: "watcher \<times> sys \<Rightarrow> bool" where
  "tracked = (\<lambda>(w, s).
     (\<forall>d. count_list (subs s d) (wid w) \<le> 1) \<and>
     (\<forall>d. wid w \<in> set (subs s d) \<longrightarrow> d \<in> depIds w \<union> newDepIds w) \<and>
     depIds w = set (deps w) \<and> newDepIds w = set (newDeps w) \<and> distinct (newDeps w))"

text \<open>
  The set of Deps freshly collected by an evaluation: what \<^verbatim>\<open>newDepIds\<close> held, the
  Deps the computation reads and, for a deep Watcher whose computation returns an object,
  the Deps that \<^verbatim>\<open>traverse\<close> reaches.
\<close>

definition freshIds :: "evaluation \<Rightarrow> watcher \<Rightarrow> nat set" where
  "freshIds e w = newDepIds w \<union> set (reads e) \<union>
     (case completion e of
        Returns v \<Rightarrow> if deep w \<and> isObject v then set (deepReads e) else {}
      | Throws err \<Rightarrow> {})"

text \<open>
  The error with which \<^verbatim>\<open>traverse(value)\<close> ends an evaluation, if it does:
  \<^verbatim>\<open>traverse\<close> is called by a deep Watcher only and returns at once unless the
  computation has returned an object.
\<close>

definition traverseThrows :: "evaluation \<Rightarrow> watcher \<Rightarrow> string option" where
  "traverseThrows e w =
     (case completion e of
        Returns v \<Rightarrow> if deep w \<and> isObject v then deepThrows e else None
      | Throws err \<Rightarrow> None)"

text \<open>A sequence of calls of the three methods on one Watcher.\<close>

datatype wcall = CallAddDep nat | CallCleanupDeps | CallGet evaluation

fun perform :: "wcall list \<Rightarrow> watcher \<times> sys \<Rightarrow> watcher \<times> sys" where
  "perform [] ws = ws"
| "perform (CallAddDep d # cs) ws = perform cs (addDep d ws)"
| "perform (CallCleanupDeps # cs) ws = perform cs (cleanupDeps ws)"
| "perform (CallGet e # cs) ws = perform cs (snd (get e ws))"

text \<open>
  Examples: a user Watcher that depends on the Deps 1 and 2, to which a Watcher 3 is
  subscribed as well; evaluations that read given Deps with no traversal; a new Watcher;
  the same Watcher in deep mode, with an evaluation that reads Dep 2, returns an object
  and traverses it, reaching Dep 4, where the traversal returns or throws; and two
  callbacks.
\<close>

definition watcher0 :: watcher where
  "watcher0 = \<lparr>wid = 7, expression = ''a.b'', deep = False, user = True, lazy = False,
     sync = False, dirty = False, active = True, deps = [1, 2], newDeps = [],
     depIds = {1, 2}, newDepIds = {}, wvalue = Num 1\<rparr>"

definition sys0 :: sys where
  "sys0 = \<lparr>subs = (\<lambda>d. [])(1 := [7], 2 := [3, 7]), targetStack = [], errors = [], calls = []\<rparr>"

definition reading :: "nat list \<Rightarrow> completion \<Rightarrow> evaluation" where
  "reading ds c = \<lparr>reads = ds, completion = c, deepReads = [], deepThrows = None\<rparr>"



definition watcher_new :: watcher where
  "watcher_new = watcher0\<lparr>deps := [], depIds := {}\<rparr>"

definition sys_new :: sys where
  "sys_new = sys0\<lparr>subs := (\<lambda>d. [])(2 := [3])\<rparr>"

definition quiet :: callback where
  "quiet v oldValue = None"

definition failing :: callback where
  "failing v oldValue = Some ''bad callback''"

section \<open>Properties of the Subscriber\<close>

lemma count_remove1_le: "count_list (remove1 x xs) y \<le> count_list xs y"
  by (induction xs) auto

lemma once_remove1_gone: "count_list xs x \<le> 1 \<Longrightarrow> x \<notin> set (remove1 x xs)"
  by (induction xs) (auto simp: count_list_0_iff)

text \<open>The pruning loop of cleanupDeps.\<close>

lemma prune_frame:
  "targetStack (fold (\<lambda>d s'. if d \<notin> N then removeSub d x s' else s') ds s) = targetStack s \<and>
   errors (fold (\<lambda>d s'. if d \<notin> N then removeSub d x s' else s') ds s) = errors s \<and>
   calls (fold (\<lambda>d s'. if d \<notin> N then removeSub d x s' else s') ds s) = calls s"
  by (induction ds arbitrary: s) (simp_all add: removeSub_def)

lemma prune_count:
  "count_list (subs (fold (\<lambda>d s'. if d \<notin> N then removeSub d x s' else s') ds s) d) y
     \<le> count_list (subs s d) y"
proof (induction ds arbitrary: s)
  case Nil
  then show ?case by simp
next
  case (Cons a ds)
  let ?s = "if a \<notin> N then removeSub a x s else s"
  have "count_list (subs ?s d) y \<le> count_list (subs s d) y"
    by (simp add: removeSub_def count_remove1_le)
  then show ?case using Cons.IH [of ?s] by (simp del: fun_upd_apply)
qed

lemma prune_gone:
  "d \<in> set ds \<Longrightarrow> d \<notin> N \<Longrightarrow> count_list (subs s d) x \<le> 1 \<Longrightarrow>
   x \<notin> set (subs (fold (\<lambda>d s'. if d \<notin> N then removeSub d x s' else s') ds s) d)"
proof (induction ds arbitrary: s)
  case Nil
  then show ?case by simp
next
  case (Cons a ds)
  let ?s = "if a \<notin> N then removeSub a x s else s"
  show ?case
  proof (cases "a = d")
    case True
    then have "x \<notin> set (subs ?s d)"
      using Cons.prems by (simp add: removeSub_def once_remove1_gone)
    then have "count_list (subs ?s d) x = 0" by (simp add: count_list_0_iff)
    then have "count_list (subs (fold (\<lambda>d s'. if d \<notin> N then removeSub d x s' else s') ds ?s) d) x = 0"
      using prune_count [where d = d and N = N and x = x and ds = ds and s = ?s and y = x] by simp
    then show ?thesis by (simp add: count_list_0_iff)
  next
    case False
    then have "d \<in> set ds" using Cons.prems by simp
    moreover have "count_list (subs ?s d) x \<le> 1"
      using Cons.prems(3) False by (simp add: removeSub_def)
    ultimately show ?thesis using Cons.IH [of ?s] Cons.prems(2) by simp
  qed
qed

text \<open>What addDep leaves alone.\<close>

lemma addDep_frame:
  "addDep d (w, s) = (w', s') \<Longrightarrow>
   wid w' = wid w \<and> expression w' = expression w \<and> deep w' = deep w \<and> user w' = user w \<and>
   active w' = active w \<and> wvalue w' = wvalue w \<and> deps w' = deps w \<and> depIds w' = depIds w \<and>
   targetStack s' = targetStack s \<and> errors s' = errors s \<and> calls s' = calls s"
  by (auto simp: addDep_def addSub_def split: if_splits)

lemma fold_addDep_frame:
  "fold addDep ds (w, s) = (w', s') \<Longrightarrow>
   wid w' = wid w \<and> expression w' = expression w \<and> deep w' = deep w \<and> user w' = user w \<and>
   active w' = active w \<and> wvalue w' = wvalue w \<and> deps w' = deps w \<and> depIds w' = depIds w \<and>
   targetStack s' = targetStack s \<and> errors s' = errors s \<and> calls s' = calls s"
proof (induction ds arbitrary: w s)
  case Nil
  then show ?case by simp
next
  case (Cons a ds)
  obtain w1 s1 where a: "addDep a (w, s) = (w1, s1)" by (cases "addDep a (w, s)")
  with Cons.prems have "fold addDep ds (w1, s1) = (w', s')" by simp
  from Cons.IH [OF this] addDep_frame [OF a] show ?case by simp
qed

lemma fold_addDep_newDepIds:
  "fold addDep ds (w, s) = (w', s') \<Longrightarrow> newDepIds w' = newDepIds w \<union> set ds"
proof (induction ds arbitrary: w s)
  case Nil
  then show ?case by simp
next
  case (Cons a ds)
  obtain w1 s1 where a: "addDep a (w, s) = (w1, s1)" by (cases "addDep a (w, s)")
  with Cons.prems have "fold addDep ds (w1, s1) = (w', s')" by simp
  from Cons.IH [OF this] have "newDepIds w' = newDepIds w1 \<union> set ds" .
  moreover from a have "newDepIds w1 = insert a (newDepIds w)"
    by (auto simp: addDep_def split: if_splits)
  ultimately show ?case by simp
qed

text \<open>addDep never touches the subscriber list of a Dep it is not called on, and adds
  the Watcher to none that is a previous-cycle dependency.\<close>

lemma addDep_subs_other:
  "addDep a (w, s) = (w', s') \<Longrightarrow> d \<noteq> a \<or> d \<in> depIds w \<Longrightarrow> subs s' d = subs s d"
  by (auto simp: addDep_def addSub_def split: if_splits)

lemma fold_addDep_subs_other:
  "fold addDep ds (w, s) = (w', s') \<Longrightarrow> d \<notin> set ds \<or> d \<in> depIds w \<Longrightarrow> subs s' d = subs s d"
proof (induction ds arbitrary: w s)
  case Nil
  then show ?case by simp
next
  case (Cons a ds)
  obtain w1 s1 where a: "addDep a (w, s) = (w1, s1)" by (cases "addDep a (w, s)")
  with Cons.prems have f: "fold addDep ds (w1, s1) = (w', s')" by simp
  have "depIds w1 = depIds w" using addDep_frame [OF a] by simp
  with Cons.prems(2) have "d \<notin> set ds \<or> d \<in> depIds w1" by auto
  from Cons.IH [OF f this] have "subs s' d = subs s1 d" .
  moreover have "subs s1 d = subs s d" using addDep_subs_other [OF a, of d] Cons.prems(2) by auto
  ultimately show ?case by simp
qed

lemma tracked_addDep:
  assumes "tracked (w, s)" and "addDep d (w, s) = (w', s')"
  shows "tracked (w', s')"
proof (cases "d \<in> newDepIds w")
  case True
  with assms show ?thesis by (simp add: addDep_def)
next
  case False
  note new = this
  show ?thesis
  proof (cases "d \<in> depIds w")
    case True
    with new assms show ?thesis by (auto simp: addDep_def tracked_def)
  next
    case False
    with new assms(1) have "wid w \<notin> set (subs s d)" by (auto simp: tracked_def)
    then have "count_list (subs s d) (wid w) = 0" by (simp add: count_list_0_iff)
    with new False assms show ?thesis
      by (auto simp: addDep_def addSub_def tracked_def)
  qed
qed

lemma tracked_fold_addDep:
  "tracked (w, s) \<Longrightarrow> fold addDep ds (w, s) = (w', s') \<Longrightarrow> tracked (w', s')"
proof (induction ds arbitrary: w s)
  case Nil
  then show ?case by simp
next
  case (Cons a ds)
  obtain w1 s1 where a: "addDep a (w, s) = (w1, s1)" by (cases "addDep a (w, s)")
  with Cons.prems have "fold addDep ds (w1, s1) = (w', s')" by simp
  with Cons.IH tracked_addDep [OF Cons.prems(1) a] show ?case by blast
qed

lemma tracked_subs_cong:
  "tracked (w, s) \<Longrightarrow> subs s' = subs s \<Longrightarrow> tracked (w, s')"
  unfolding tracked_def by auto

lemma tracked_cleanupDeps:
  assumes "tracked (w, s)" and "cleanupDeps (w, s) = (w', s')"
  shows "tracked (w', s')"
proof -
  let ?p = "fold (\<lambda>d s'. if d \<notin> newDepIds w then removeSub d (wid w) s' else s') (rev (deps w)) s"
  from assms(2) have w': "w' = w\<lparr>depIds := newDepIds w, newDepIds := {}, deps := newDeps w, newDeps := []\<rparr>"
    and s': "s' = ?p" by (simp_all add: cleanupDeps_def)
  have once: "\<And>d. count_list (subs s d) (wid w) \<le> 1"
    and known: "\<And>d. wid w \<in> set (subs s d) \<Longrightarrow> d \<in> depIds w \<union> newDepIds w"
    and ids: "depIds w = set (deps w)" "newDepIds w = set (newDeps w)" "distinct (newDeps w)"
    using assms(1) by (auto simp: tracked_def)
  have a: "count_list (subs s' d) (wid w) \<le> 1" for d
    using prune_count [where d = d and y = "wid w" and s = s and ds = "rev (deps w)"] once [of d]
    unfolding s' by (meson le_trans)
  have b: "d \<in> newDepIds w" if "wid w \<in> set (subs s' d)" for d
  proof (rule ccontr)
    assume n: "d \<notin> newDepIds w"
    have "wid w \<in> set (subs s d)"
    proof (rule ccontr)
      assume "wid w \<notin> set (subs s d)"
      then have "count_list (subs s d) (wid w) = 0" by (simp add: count_list_0_iff)
      then have "count_list (subs s' d) (wid w) = 0"
        using prune_count [where d = d and y = "wid w" and s = s and ds = "rev (deps w)"
            and N = "newDepIds w" and x = "wid w"] unfolding s' by simp
      with that show False by (simp add: count_list_0_iff)
    qed
    with known n have "d \<in> set (rev (deps w))" using ids(1) by auto
    from prune_gone [OF this n once] that show False unfolding s' by blast
  qed
  show ?thesis using a b ids by (auto simp: tracked_def w')
qed

lemma get_steps:
  assumes f1: "fold addDep (reads e) (w, pushTarget (wid w) s) = (w2, s2)"
    and v: "v = (case completion e of Returns r \<Rightarrow> r | Throws err \<Rightarrow> Undefined)"
    and s3: "s3 = (case completion e of Returns r \<Rightarrow> s2
                   | Throws err \<Rightarrow> if user w2
                       then handleError err (''getter for watcher '' @ quoted (expression w2)) s2
                       else s2)"
    and f2: "(if deep w2 then fold addDep (if isObject v then deepReads e else []) (w2, s3)
              else (w2, s3)) = (w4, s4)"
    and c: "cleanupDeps (w4, popTarget s4) = (w6, s6)"
  shows "get e (w, s) =
    (case (if deep w2 \<and> isObject v then deepThrows e else None) of
       Some err' \<Rightarrow> (Inl err', w4, s4)
     | None \<Rightarrow>
         (case completion e of Returns r \<Rightarrow> Inr r
          | Throws err \<Rightarrow> if user w2 then Inr Undefined else Inl err, w6, s6))"
proof (cases "completion e")
  case (Returns r)
  with v s3 have "v = r" "s3 = s2" by simp_all
  with f2 c show ?thesis
    by (auto simp: get_def f1 Returns split: if_splits option.splits)
next
  case (Throws err)
  show ?thesis
  proof (cases "user w2")
    case True
    with v s3 Throws have "v = Undefined"
      "s3 = handleError err (''getter for watcher '' @ quoted (expression w2)) s2" by simp_all
    with f2 c show ?thesis by (auto simp: get_def f1 Throws True isObject_def split: if_splits)
  next
    case False
    with v s3 Throws have "v = Undefined" "s3 = s2" by simp_all
    with f2 c show ?thesis by (auto simp: get_def f1 Throws False isObject_def split: if_splits)
  qed
qed

lemma fold_addDep_newDeps:
  "fold addDep ds (w, s) = (w', s') \<Longrightarrow>
   set (newDeps w') = set (newDeps w) \<union> (set ds - newDepIds w)"
proof (induction ds arbitrary: w s)
  case Nil
  then show ?case by simp
next
  case (Cons a ds)
  obtain w1 s1 where a: "addDep a (w, s) = (w1, s1)" by (cases "addDep a (w, s)")
  with Cons.prems have "fold addDep ds (w1, s1) = (w', s')" by simp
  from Cons.IH [OF this]
  have "set (newDeps w') = set (newDeps w1) \<union> (set ds - newDepIds w1)" .
  moreover from a have "newDepIds w1 = insert a (newDepIds w)"
    "set (newDeps w1) = set (newDeps w) \<union> ({a} - newDepIds w)"
    by (auto simp: addDep_def split: if_splits)
  ultimately show ?case by auto
qed

text \<open>
  The state in which get reaches the end of its finally block: when the traversal has
  not thrown, cleanupDeps runs on it; otherwise get ends there, with the Watcher still
  on the active-Subscriber stack.
\<close>

lemma get_collects:
  assumes "get e (w, s) = (r, w', s')"
  obtains w4 s4 where
    "traverseThrows e w = None \<longrightarrow> (w', s') = cleanupDeps (w4, s4)"
    "traverseThrows e w = None \<longrightarrow>
       r = (case completion e of Returns v \<Rightarrow> Inr v
            | Throws err \<Rightarrow> if user w then Inr Undefined else Inl err)"
    "\<forall>err'. traverseThrows e w = Some err' \<longrightarrow>
       w' = w4 \<and> s' = s4\<lparr>targetStack := wid w # targetStack s\<rparr>"
    "\<forall>err'. traverseThrows e w = Some err' \<longrightarrow> r = Inl err'"
    "newDepIds w4 = freshIds e w" "deps w4 = deps w" "depIds w4 = depIds w" "wid w4 = wid w"
    "set (newDeps w4) = set (newDeps w) \<union> (freshIds e w - newDepIds w)"
    "\<forall>d. d \<notin> freshIds e w \<or> d \<in> depIds w \<longrightarrow> subs s4 d = subs s d"
    "targetStack s4 = targetStack s"
    "tracked (w, s) \<longrightarrow> tracked (w4, s4)"
    "errors s4 = errors s @ (case completion e of Returns v \<Rightarrow> []
          | Throws err \<Rightarrow>
              if user w then [(err, ''getter for watcher '' @ quoted (expression w))] else [])"
    "calls s4 = calls s" "wvalue w4 = wvalue w" "deep w4 = deep w" "user w4 = user w"
    "active w4 = active w" "expression w4 = expression w"
proof -
  obtain w2 s2 where f1: "fold addDep (reads e) (w, pushTarget (wid w) s) = (w2, s2)"
    by (cases "fold addDep (reads e) (w, pushTarget (wid w) s)")
  define v where "v = (case completion e of Returns r \<Rightarrow> r | Throws err \<Rightarrow> Undefined)"
  define s3 where "s3 = (case completion e of Returns r \<Rightarrow> s2
                   | Throws err \<Rightarrow> if user w2
                       then handleError err (''getter for watcher '' @ quoted (expression w2)) s2
                       else s2)"
  define ds where "ds = (if deep w2 then (if isObject v then deepReads e else []) else [])"
  obtain w4 s4 where f2: "fold addDep ds (w2, s3) = (w4, s4)"
    by (cases "fold addDep ds (w2, s3)")
  then have f2': "(if deep w2 then fold addDep (if isObject v then deepReads e else []) (w2, s3)
              else (w2, s3)) = (w4, s4)" by (auto simp: ds_def split: if_splits)
  obtain w6 s6 where c: "cleanupDeps (w4, popTarget s4) = (w6, s6)"
    by (cases "cleanupDeps (w4, popTarget s4)")
  note g = get_steps [OF f1 v_def s3_def f2' c]
  note fr1 = fold_addDep_frame [OF f1]
  note fr2 = fold_addDep_frame [OF f2]
  have s3_subs: "subs s3 = subs s2" and s3_stack: "targetStack s3 = targetStack s2"
    and s3_calls: "calls s3 = calls s2"
    by (auto simp: s3_def handleError_def split: completion.splits)
  have tt: "(if deep w2 \<and> isObject v then deepThrows e else None) = traverseThrows e w"
    using fr1 by (auto simp: traverseThrows_def v_def isObject_def split: completion.splits)
  have ds: "set ds = (case completion e of
        Returns v \<Rightarrow> if deep w \<and> isObject v then set (deepReads e) else {}
      | Throws err \<Rightarrow> {})"
    using fr1 by (auto simp: ds_def v_def isObject_def split: completion.splits)
  have ids: "newDepIds w4 = freshIds e w"
    using fold_addDep_newDepIds [OF f1] fold_addDep_newDepIds [OF f2] ds
    by (simp add: freshIds_def)
  have nd: "set (newDeps w4) = set (newDeps w) \<union> (freshIds e w - newDepIds w)"
    using fold_addDep_newDeps [OF f1] fold_addDep_newDeps [OF f2]
      fold_addDep_newDepIds [OF f1] ds
    by (auto simp: freshIds_def)
  have sub: "subs (popTarget s4) d = subs s d" if "d \<notin> freshIds e w \<or> d \<in> depIds w" for d
  proof -
    from that have 1: "d \<notin> set (reads e) \<or> d \<in> depIds w" and 2: "d \<notin> set ds \<or> d \<in> depIds w2"
      using ds fr1 by (auto simp: freshIds_def)
    have "subs s4 d = subs s3 d" using fold_addDep_subs_other [OF f2 2] .
    moreover have "subs s2 d = subs (pushTarget (wid w) s) d"
      using fold_addDep_subs_other [OF f1 1] .
    ultimately show ?thesis by (simp add: s3_subs popTarget_def pushTarget_def)
  qed
  have tr: "tracked (w4, popTarget s4)" if "tracked (w, s)"
  proof -
    from that have "tracked (w, pushTarget (wid w) s)"
      by (rule tracked_subs_cong) (simp add: pushTarget_def)
    from tracked_fold_addDep [OF this f1] have "tracked (w2, s3)"
      by (rule tracked_subs_cong) (rule s3_subs)
    from tracked_fold_addDep [OF this f2] show ?thesis
      by (rule tracked_subs_cong) (simp add: popTarget_def)
  qed
  have er: "errors (popTarget s4) = errors s @ (case completion e of Returns v \<Rightarrow> []
          | Throws err \<Rightarrow>
              if user w then [(err, ''getter for watcher '' @ quoted (expression w))] else [])"
    using fr1 fr2 by (auto simp: popTarget_def pushTarget_def s3_def handleError_def
        split: completion.splits)
  have st: "targetStack s4 = wid w # targetStack s"
    using fr1 fr2 s3_stack by (simp add: pushTarget_def)
  have s4eq: "(popTarget s4)\<lparr>targetStack := wid w # targetStack s\<rparr> = s4"
    using st by (simp add: popTarget_def)
  have ret: "traverseThrows e w = None \<longrightarrow> (w', s') = cleanupDeps (w4, popTarget s4)"
      "traverseThrows e w = None \<longrightarrow>
       r = (case completion e of Returns v \<Rightarrow> Inr v
            | Throws err \<Rightarrow> if user w then Inr Undefined else Inl err)"
    using g assms c fr1 unfolding tt by (auto split: completion.splits)
  have thr: "\<forall>err'. traverseThrows e w = Some err' \<longrightarrow>
       w' = w4 \<and> s' = (popTarget s4)\<lparr>targetStack := wid w # targetStack s\<rparr>"
      "\<forall>err'. traverseThrows e w = Some err' \<longrightarrow> r = Inl err'"
    using g assms s4eq unfolding tt by auto
  show thesis
  proof (rule that [of w4 "popTarget s4"])
    show "targetStack (popTarget s4) = targetStack s"
      using st by (simp add: popTarget_def)
    show "calls (popTarget s4) = calls s"
      using fr1 fr2 s3_calls by (simp add: popTarget_def pushTarget_def)
    show "traverseThrows e w = None \<longrightarrow> (w', s') = cleanupDeps (w4, popTarget s4)"
      by (rule ret(1))
    show "traverseThrows e w = None \<longrightarrow>
       r = (case completion e of Returns v \<Rightarrow> Inr v
            | Throws err \<Rightarrow> if user w then Inr Undefined else Inl err)"
      by (rule ret(2))
    show "\<forall>err'. traverseThrows e w = Some err' \<longrightarrow>
       w' = w4 \<and> s' = (popTarget s4)\<lparr>targetStack := wid w # targetStack s\<rparr>"
      by (rule thr(1))
    show "\<forall>err'. traverseThrows e w = Some err' \<longrightarrow> r = Inl err'"
      by (rule thr(2))
    show "\<forall>d. d \<notin> freshIds e w \<or> d \<in> depIds w \<longrightarrow> subs (popTarget s4) d = subs s d"
      using sub by blast
    show "tracked (w, s) \<longrightarrow> tracked (w4, popTarget s4)"
      using tr by blast
  qed (use ids nd er fr1 fr2 in \<open>simp_all\<close>)
qed

lemma cleanupDeps_frame:
  "cleanupDeps (w, s) = (w', s') \<Longrightarrow>
   wid w' = wid w \<and> expression w' = expression w \<and> deep w' = deep w \<and> user w' = user w \<and>
   active w' = active w \<and> wvalue w' = wvalue w \<and>
   depIds w' = newDepIds w \<and> deps w' = newDeps w \<and> newDepIds w' = {} \<and> newDeps w' = [] \<and>
   targetStack s' = targetStack s \<and> errors s' = errors s \<and> calls s' = calls s"
  using prune_frame [of "newDepIds w" "wid w" "rev (deps w)" s]
  by (auto simp: cleanupDeps_def)

text \<open>What get leaves alone, however it ends.\<close>

lemma get_frame:
  assumes "get e (w, s) = (r, w', s')"
  shows "wid w' = wid w \<and> expression w' = expression w \<and> deep w' = deep w \<and> user w' = user w \<and>
    active w' = active w \<and> wvalue w' = wvalue w \<and> calls s' = calls s"
proof -
  from assms obtain w4 s4 where
    ret: "traverseThrows e w = None \<longrightarrow> (w', s') = cleanupDeps (w4, s4)"
    and thr: "\<forall>err'. traverseThrows e w = Some err' \<longrightarrow>
       w' = w4 \<and> s' = s4\<lparr>targetStack := wid w # targetStack s\<rparr>"
    and f: "wid w4 = wid w" "calls s4 = calls s" "wvalue w4 = wvalue w" "deep w4 = deep w"
      "user w4 = user w" "active w4 = active w" "expression w4 = expression w"
    by (rule get_collects) (rule that; assumption)
  show ?thesis
  proof (cases "traverseThrows e w")
    case None
    with ret have "cleanupDeps (w4, s4) = (w', s')" by simp
    from cleanupDeps_frame [OF this] f show ?thesis by simp
  next
    case (Some err')
    with thr f show ?thesis by simp
  qed
qed

lemma tracked_get:
  assumes "tracked (w, s)" and "get e (w, s) = (r, w', s')"
  shows "tracked (w', s') \<and> wid w' = wid w"
proof -
  from assms(2) obtain w4 s4 where
    ret: "traverseThrows e w = None \<longrightarrow> (w', s') = cleanupDeps (w4, s4)"
    and thr: "\<forall>err'. traverseThrows e w = Some err' \<longrightarrow>
       w' = w4 \<and> s' = s4\<lparr>targetStack := wid w # targetStack s\<rparr>"
    and t': "tracked (w, s) \<longrightarrow> tracked (w4, s4)"
    by (rule get_collects) (rule that; assumption)
  note t = t' [rule_format]
  have "tracked (w', s')"
  proof (cases "traverseThrows e w")
    case None
    with ret have "cleanupDeps (w4, s4) = (w', s')" by simp
    from tracked_cleanupDeps [OF t [OF assms(1)] this] show ?thesis .
  next
    case (Some err')
    with thr have "w' = w4" "subs s' = subs s4" by simp_all
    with tracked_subs_cong [OF t [OF assms(1)], of s'] show ?thesis by simp
  qed
  with get_frame [OF assms(2)] show ?thesis by simp
qed

lemma tracked_perform:
  "tracked (w, s) \<Longrightarrow> perform cs (w, s) = (w1, s1) \<Longrightarrow> tracked (w1, s1) \<and> wid w1 = wid w"
proof (induction cs arbitrary: w s)
  case Nil
  then show ?case by simp
next
  case (Cons c cs)
  show ?case
  proof (cases c)
    case (CallAddDep d)
    obtain w2 s2 where a: "addDep d (w, s) = (w2, s2)" by (cases "addDep d (w, s)")
    from Cons.prems(2) have "perform cs (w2, s2) = (w1, s1)" by (simp add: CallAddDep a)
    from Cons.IH [OF tracked_addDep [OF Cons.prems(1) a] this] addDep_frame [OF a]
    show ?thesis by simp
  next
    case CallCleanupDeps
    obtain w2 s2 where a: "cleanupDeps (w, s) = (w2, s2)" by (cases "cleanupDeps (w, s)")
    from Cons.prems(2) have "perform cs (w2, s2) = (w1, s1)" by (simp add: CallCleanupDeps a)
    from Cons.IH [OF tracked_cleanupDeps [OF Cons.prems(1) a] this] cleanupDeps_frame [OF a]
    show ?thesis by simp
  next
    case (CallGet e)
    obtain r w2 s2 where a: "get e (w, s) = (r, w2, s2)" by (cases "get e (w, s)")
    from Cons.prems(2) have "perform cs (w2, s2) = (w1, s1)" by (simp add: CallGet a)
    from Cons.IH [OF _ this] tracked_get [OF Cons.prems(1) a]
    show ?thesis by simp
  qed
qed


text \<open>
  Claim C3. Take a new Watcher (empty dependency sets, subscribed nowhere) and let any
  sequence of \<open>addDep\<close>, \<open>cleanupDeps\<close> and \<open>get\<close> calls run. In the state reached,
  \<open>addDep d\<close> changes nothing when \<open>d\<close> is already in \<open>newDepIds\<close>; otherwise it
  records \<open>d\<close> in \<open>newDepIds\<close> and \<open>newDeps\<close> and calls \<open>addSub\<close> only when
  \<open>d\<close> is not in \<open>depIds\<close>. No Dep stands twice in \<open>newDeps\<close>, and the Watcher
  stands at most once in every Dep's subscriber list.
\<close>

theorem addDep_subscribes_at_most_once:
  assumes fresh: "deps w = [] \<and> newDeps w = [] \<and> depIds w = {} \<and> newDepIds w = {}"
    and unsub: "\<forall>d. wid w \<notin> set (subs s d)"
    and p: "perform cs (w, s) = (w1, s1)"
    and a: "addDep d (w1, s1) = (w2, s2)"
  shows "(if d \<in> newDepIds w1 then w2 = w1 \<and> s2 = s1
          else newDeps w2 = newDeps w1 @ [d] \<and> newDepIds w2 = insert d (newDepIds w1) \<and>
               s2 = (if d \<in> depIds w1 then s1 else addSub d (wid w) s1)) \<and>
         distinct (newDeps w2) \<and>
         (\<forall>d'. count_list (subs s2 d') (wid w) \<le> 1)"
proof -
  have "tracked (w, s)" using fresh unsub by (simp add: tracked_def count_list_0_iff)
  from tracked_perform [OF this p] have t1: "tracked (w1, s1)" and i: "wid w1 = wid w" by simp_all
  from tracked_addDep [OF t1 a] addDep_frame [OF a] i
  have "distinct (newDeps w2)" "\<forall>d'. count_list (subs s2 d') (wid w) \<le> 1"
    by (simp_all add: tracked_def)
  moreover have "if d \<in> newDepIds w1 then w2 = w1 \<and> s2 = s1
          else newDeps w2 = newDeps w1 @ [d] \<and> newDepIds w2 = insert d (newDepIds w1) \<and>
               s2 = (if d \<in> depIds w1 then s1 else addSub d (wid w) s1)"
    using a i by (auto simp: addDep_def split: if_splits)
  ultimately show ?thesis by simp
qed

text \<open>
  Claim C5. An active Watcher's \<open>run\<close> re-evaluates through \<open>get\<close>; when \<open>get\<close>
  returns \<open>v\<close>, the callback is invoked, with \<open>(v, old value)\<close>, and \<open>v\<close> is cached,
  exactly when \<open>v\<close> is not \<^verbatim>\<open>===\<close> to the cached value, or \<open>v\<close> is an object, or
  the Watcher is deep; otherwise no callback is invoked and the cached value stays. When
  \<open>get\<close> throws, \<open>run\<close> throws the same error and invokes no callback. An inactive
  Watcher's \<open>run\<close> does nothing.
\<close>

theorem run_fires_callback_iff:
  assumes g: "get e (w, s) = (r, w1, s1)" and rn: "run cb e (w, s) = (x, w', s')"
  shows "if active w then
           (case r of
              Inr v \<Rightarrow>
                if \<not> strict_eq v (wvalue w) \<or> isObject v \<or> deep w
                then calls s' = calls s @ [(v, wvalue w)] \<and> wvalue w' = v
                else calls s' = calls s \<and> wvalue w' = wvalue w \<and> x = None
            | Inl err \<Rightarrow> calls s' = calls s \<and> wvalue w' = wvalue w \<and> x = Some err) \<and>
           deps w' = deps w1 \<and> depIds w' = depIds w1 \<and> subs s' = subs s1
         else x = None \<and> w' = w \<and> s' = s"
proof (cases "active w")
  case False
  with rn show ?thesis by (simp add: run_def)
next
  case True
  from get_frame [OF g]
  have f1: "calls s1 = calls s" "wvalue w1 = wvalue w" "deep w1 = deep w" by simp_all
  show ?thesis
  proof (cases r)
    case (Inl err)
    with rn g True f1 show ?thesis by (simp add: run_def)
  next
    case (Inr v)
    with rn g True f1 show ?thesis
      by (auto simp: run_def Let_def invokeWithErrorHandling_def handleError_def
          split: if_splits option.splits)
  qed
qed

text \<open>
  Claim C6. When the computation throws during \<open>get\<close>: a user Watcher hands the error
  to \<open>handleError\<close> and \<open>get\<close> returns \<^verbatim>\<open>undefined\<close>; an internally owned Watcher
  rethrows it and the diagnostic channel receives nothing; in both cases the
  active-Subscriber stack is popped back to what it was and \<open>cleanupDeps\<close> has run.
  When a user Watcher's callback throws in \<open>run\<close>, the error goes to \<open>handleError\<close>
  and \<open>run\<close> returns normally.
\<close>

theorem watcher_errors_routed:
  "(completion e = Throws err \<longrightarrow> get e (w, s) = (r, w', s') \<longrightarrow>
      (if user w
       then r = Inr Undefined \<and>
            errors s' = errors s @ [(err, ''getter for watcher '' @ quoted (expression w))]
       else r = Inl err \<and> errors s' = errors s) \<and>
      targetStack s' = targetStack s \<and>
      depIds w' = newDepIds w \<union> set (reads e) \<and> newDepIds w' = {} \<and> newDeps w' = []) \<and>
   (user w \<longrightarrow> active w \<longrightarrow> get e (w, s) = (Inr v, w1, s1) \<longrightarrow>
      \<not> strict_eq v (wvalue w) \<or> isObject v \<or> deep w \<longrightarrow> cb v (wvalue w) = Some cerr \<longrightarrow>
      run cb e (w, s) =
        (None, w1\<lparr>wvalue := v\<rparr>,
         s1\<lparr>calls := calls s1 @ [(v, wvalue w)],
            errors := errors s1 @ [(cerr, ''callback for watcher '' @ quoted (expression w))]\<rparr>))"
proof (intro conjI impI)
  assume t: "completion e = Throws err" and g: "get e (w, s) = (r, w', s')"
  from t have tt: "traverseThrows e w = None" by (simp add: traverseThrows_def)
  from g obtain w4 s4 where
    ret: "traverseThrows e w = None \<longrightarrow> (w', s') = cleanupDeps (w4, s4)"
      "traverseThrows e w = None \<longrightarrow>
       r = (case completion e of Returns v \<Rightarrow> Inr v
            | Throws err \<Rightarrow> if user w then Inr Undefined else Inl err)"
    and f: "newDepIds w4 = freshIds e w" "targetStack s4 = targetStack s"
      "errors s4 = errors s @ (case completion e of Returns v \<Rightarrow> []
          | Throws err \<Rightarrow>
              if user w then [(err, ''getter for watcher '' @ quoted (expression w))] else [])"
    by (rule get_collects) (rule that; assumption)
  note c = ret(1) [rule_format, OF tt] and r = ret(2) [rule_format, OF tt]
  from cleanupDeps_frame [OF c [symmetric]] f r t
  show "if user w
       then r = Inr Undefined \<and>
            errors s' = errors s @ [(err, ''getter for watcher '' @ quoted (expression w))]
       else r = Inl err \<and> errors s' = errors s"
    and "targetStack s' = targetStack s"
    and "depIds w' = newDepIds w \<union> set (reads e)" and "newDepIds w' = {}" and "newDeps w' = []"
    by (simp_all add: freshIds_def)
next
  assume u: "user w" and a: "active w" and g: "get e (w, s) = (Inr v, w1, s1)"
    and fire: "\<not> strict_eq v (wvalue w) \<or> isObject v \<or> deep w"
    and cb: "cb v (wvalue w) = Some cerr"
  from get_frame [OF g]
  have "wvalue w1 = wvalue w" "deep w1 = deep w" "user w1 = user w" "expression w1 = expression w"
    by simp_all
  with u a g fire cb
  show "run cb e (w, s) =
        (None, w1\<lparr>wvalue := v\<rparr>,
         s1\<lparr>calls := calls s1 @ [(v, wvalue w)],
            errors := errors s1 @ [(cerr, ''callback for watcher '' @ quoted (expression w))]\<rparr>)"
    by (auto simp: run_def Let_def invokeWithErrorHandling_def handleError_def)
qed

lemma get_example: "get (reading [2, 4, 2] (Returns (Num 5))) (watcher0, sys0) =
   (Inr (Num 5), watcher0\<lparr>deps := [2, 4], depIds := {2, 4}\<rparr>,
    sys0\<lparr>subs := (\<lambda>d. [])(1 := [], 2 := [3, 7], 4 := [7])\<rparr>)"
  by (auto simp: get_def reading_def watcher0_def sys0_def addDep_def addSub_def pushTarget_def
      popTarget_def cleanupDeps_def removeSub_def fun_eq_iff)




theorem addDep_subscribes_at_most_once_witness:
  "(deps watcher_new = [] \<and> newDeps watcher_new = [] \<and> depIds watcher_new = {} \<and>
    newDepIds watcher_new = {}) \<and>
   (\<forall>d. wid watcher_new \<notin> set (subs sys_new d)) \<and>
   perform [CallGet (reading [2, 4, 2] (Returns (Num 5))), CallAddDep 2] (watcher_new, sys_new) =
     (watcher_new\<lparr>deps := [2, 4], depIds := {2, 4}, newDeps := [2], newDepIds := {2}\<rparr>,
      sys_new\<lparr>subs := (\<lambda>d. [])(2 := [3, 7], 4 := [7])\<rparr>) \<and>
   addDep 4
     (watcher_new\<lparr>deps := [2, 4], depIds := {2, 4}, newDeps := [2], newDepIds := {2}\<rparr>,
      sys_new\<lparr>subs := (\<lambda>d. [])(2 := [3, 7], 4 := [7])\<rparr>) =
     (watcher_new\<lparr>deps := [2, 4], depIds := {2, 4}, newDeps := [2, 4], newDepIds := {2, 4}\<rparr>,
      sys_new\<lparr>subs := (\<lambda>d. [])(2 := [3, 7], 4 := [7])\<rparr>) \<and>
   (\<forall>d'. count_list (subs (sys_new\<lparr>subs := (\<lambda>d. [])(2 := [3, 7], 4 := [7])\<rparr>) d')
      (wid watcher_new) \<le> 1)"
proof -
  have fresh: "deps watcher_new = [] \<and> newDeps watcher_new = [] \<and> depIds watcher_new = {} \<and>
    newDepIds watcher_new = {}"
    by (simp add: watcher_new_def watcher0_def)
  have unsub: "\<forall>d. wid watcher_new \<notin> set (subs sys_new d)"
    by (simp add: watcher_new_def watcher0_def sys_new_def sys0_def)
  have p: "perform [CallGet (reading [2, 4, 2] (Returns (Num 5))), CallAddDep 2]
      (watcher_new, sys_new) =
     (watcher_new\<lparr>deps := [2, 4], depIds := {2, 4}, newDeps := [2], newDepIds := {2}\<rparr>,
      sys_new\<lparr>subs := (\<lambda>d. [])(2 := [3, 7], 4 := [7])\<rparr>)"
    by (auto simp: get_def reading_def watcher_new_def sys_new_def watcher0_def sys0_def
        addDep_def addSub_def pushTarget_def popTarget_def cleanupDeps_def removeSub_def
        fun_eq_iff)
  have a: "addDep 4
     (watcher_new\<lparr>deps := [2, 4], depIds := {2, 4}, newDeps := [2], newDepIds := {2}\<rparr>,
      sys_new\<lparr>subs := (\<lambda>d. [])(2 := [3, 7], 4 := [7])\<rparr>) =
     (watcher_new\<lparr>deps := [2, 4], depIds := {2, 4}, newDeps := [2, 4], newDepIds := {2, 4}\<rparr>,
      sys_new\<lparr>subs := (\<lambda>d. [])(2 := [3, 7], 4 := [7])\<rparr>)"
    by (auto simp: addDep_def watcher_new_def watcher0_def)
  from addDep_subscribes_at_most_once [OF fresh unsub p a] fresh unsub p a
  show ?thesis by blast
qed

theorem run_fires_callback_iff_witness:
  "get (reading [2, 4, 2] (Returns (Num 5))) (watcher0, sys0) =
     (Inr (Num 5), watcher0\<lparr>deps := [2, 4], depIds := {2, 4}\<rparr>,
      sys0\<lparr>subs := (\<lambda>d. [])(1 := [], 2 := [3, 7], 4 := [7])\<rparr>) \<and>
   run quiet (reading [2, 4, 2] (Returns (Num 5))) (watcher0, sys0) =
     (None, watcher0\<lparr>deps := [2, 4], depIds := {2, 4}, wvalue := Num 5\<rparr>,
      sys0\<lparr>subs := (\<lambda>d. [])(1 := [], 2 := [3, 7], 4 := [7]), calls := [(Num 5, Num 1)]\<rparr>) \<and>
   active watcher0 \<and> \<not> strict_eq (Num 5) (wvalue watcher0) \<and>
   calls (sys0\<lparr>subs := (\<lambda>d. [])(1 := [], 2 := [3, 7], 4 := [7]), calls := [(Num 5, Num 1)]\<rparr>) =
     calls sys0 @ [(Num 5, wvalue watcher0)]"
proof -
  note g = get_example
  have r: "run quiet (reading [2, 4, 2] (Returns (Num 5))) (watcher0, sys0) =
     (None, watcher0\<lparr>deps := [2, 4], depIds := {2, 4}, wvalue := Num 5\<rparr>,
      sys0\<lparr>subs := (\<lambda>d. [])(1 := [], 2 := [3, 7], 4 := [7]), calls := [(Num 5, Num 1)]\<rparr>)"
    by (simp add: run_def g) (simp add: watcher0_def sys0_def strict_eq_def quiet_def
        invokeWithErrorHandling_def)
  have c: "active watcher0" "\<not> strict_eq (Num 5) (wvalue watcher0)"
    by (simp_all add: watcher0_def strict_eq_def)
  from run_fires_callback_iff [OF g r] c g r show ?thesis by simp
qed

theorem watcher_errors_routed_witness:
  "completion (reading [2] (Throws ''boom'')) = Throws ''boom'' \<and>
   get (reading [2] (Throws ''boom'')) (watcher0, sys0) =
     (Inr Undefined, watcher0\<lparr>deps := [2], depIds := {2}\<rparr>,
      sys0\<lparr>subs := (\<lambda>d. [])(1 := [], 2 := [3, 7]),
           errors := [(''boom'', ''getter for watcher '' @ quoted ''a.b'')]\<rparr>) \<and>
   user watcher0 \<and> active watcher0 \<and>
   get (reading [2, 4, 2] (Returns (Num 5))) (watcher0, sys0) =
     (Inr (Num 5), watcher0\<lparr>deps := [2, 4], depIds := {2, 4}\<rparr>,
      sys0\<lparr>subs := (\<lambda>d. [])(1 := [], 2 := [3, 7], 4 := [7])\<rparr>) \<and>
   \<not> strict_eq (Num 5) (wvalue watcher0) \<and>
   failing (Num 5) (wvalue watcher0) = Some ''bad callback'' \<and>
   run failing (reading [2, 4, 2] (Returns (Num 5))) (watcher0, sys0) =
     (None, watcher0\<lparr>deps := [2, 4], depIds := {2, 4}, wvalue := Num 5\<rparr>,
      sys0\<lparr>subs := (\<lambda>d. [])(1 := [], 2 := [3, 7], 4 := [7]), calls := [(Num 5, Num 1)],
           errors := [(''bad callback'', ''callback for watcher '' @ quoted ''a.b'')]\<rparr>) \<and>
   targetStack (sys0\<lparr>subs := (\<lambda>d. [])(1 := [], 2 := [3, 7]),
           errors := [(''boom'', ''getter for watcher '' @ quoted ''a.b'')]\<rparr>) = targetStack sys0"
proof -
  have t: "completion (reading [2] (Throws ''boom'')) = Throws ''boom''"
    by (simp add: reading_def)
  have g1: "get (reading [2] (Throws ''boom'')) (watcher0, sys0) =
     (Inr Undefined, watcher0\<lparr>deps := [2], depIds := {2}\<rparr>,
      sys0\<lparr>subs := (\<lambda>d. [])(1 := [], 2 := [3, 7]),
           errors := [(''boom'', ''getter for watcher '' @ quoted ''a.b'')]\<rparr>)"
    by (auto simp: get_def reading_def watcher0_def sys0_def addDep_def addSub_def pushTarget_def
        popTarget_def cleanupDeps_def removeSub_def handleError_def fun_eq_iff)
  note g2 = get_example
  have c: "user watcher0" "active watcher0" "\<not> strict_eq (Num 5) (wvalue watcher0)"
    "failing (Num 5) (wvalue watcher0) = Some ''bad callback''"
    by (simp_all add: watcher0_def strict_eq_def failing_def)
  note th = watcher_errors_routed [where e = "reading [2] (Throws ''boom'')" and err = "''boom''"
      and w = watcher0 and s = sys0]
  note th1 = th [THEN conjunct1, rule_format, OF t g1]
  note th2 = watcher_errors_routed [where e = "reading [2, 4, 2] (Returns (Num 5))"
      and w = watcher0 and s = sys0 and cb = failing and v = "Num 5"
      and cerr = "''bad callback''", THEN conjunct2, rule_format, OF c(1) c(2) g2 _ c(4)]
  have r: "run failing (reading [2, 4, 2] (Returns (Num 5))) (watcher0, sys0) =
     (None, watcher0\<lparr>deps := [2, 4], depIds := {2, 4}, wvalue := Num 5\<rparr>,
      sys0\<lparr>subs := (\<lambda>d. [])(1 := [], 2 := [3, 7], 4 := [7]), calls := [(Num 5, Num 1)],
           errors := [(''bad callback'', ''callback for watcher '' @ quoted ''a.b'')]\<rparr>)"
    using th2 c(3) by (simp add: watcher0_def sys0_def)
  from th1 have "targetStack (sys0\<lparr>subs := (\<lambda>d. [])(1 := [], 2 := [3, 7]),
           errors := [(''boom'', ''getter for watcher '' @ quoted ''a.b'')]\<rparr>) = targetStack sys0"
    by simp
  with t g1 g2 c r show ?thesis by simp
qed
section \<open>Properties of nextTick\<close>

lemma nextTick_frame:
  "tlog (snd (nextTick hp cb ctx t)) = tlog t \<and>
   map payload (callbacks (snd (nextTick hp cb ctx t))) = map payload (callbacks t) @ [(cb, ctx)] \<and>
   pending (snd (nextTick hp cb ctx t)) \<and>
   timers (snd (nextTick hp cb ctx t)) = timers t + (if pending t then 0 else 1)"
  by (simp add: nextTick_def timerFunc_def payload_def Let_def)

lemma run_actions_spec:
  "tlog (snd (run_actions hp as t)) @
     (case fst (run_actions hp as t) of Some e \<Rightarrow> [Handled e ''nextTick''] | None \<Rightarrow> []) =
     tlog t @ effects as \<and>
   map payload (callbacks (snd (run_actions hp as t))) = map payload (callbacks t) @ requests as \<and>
   pending (snd (run_actions hp as t)) = (pending t \<or> requests as \<noteq> []) \<and>
   timers (snd (run_actions hp as t)) =
     timers t + (if \<not> pending t \<and> requests as \<noteq> [] then 1 else 0)"
proof (induction hp as t rule: run_actions.induct)
  case (1 hp t)
  then show ?case by simp
next
  case (2 hp n as t)
  then show ?case by simp
next
  case (3 hp e as t)
  then show ?case by simp
next
  case (4 hp cb ctx as t)
  with nextTick_frame [of hp cb ctx t] show ?case by simp
qed

lemma invoke_spec:
  "tlog (invoke hp w t) = tlog t @ wrapper_effects w \<and>
   map payload (callbacks (invoke hp w t)) = map payload (callbacks t) @ wrapper_requests w \<and>
   pending (invoke hp w t) = (pending t \<or> wrapper_requests w \<noteq> []) \<and>
   timers (invoke hp w t) = timers t + (if \<not> pending t \<and> wrapper_requests w \<noteq> [] then 1 else 0)"
proof (cases w)
  case (Wrapper cb ctx p)
  show ?thesis
  proof (cases cb)
    case None
    with Wrapper show ?thesis
      by (simp add: invoke_def wrapper_effects_def wrapper_requests_def split: option.splits)
  next
    case (Some body)
    obtain r t' where r: "run_actions hp body t = (r, t')" by (cases "run_actions hp body t")
    with run_actions_spec [of hp body t] Wrapper Some show ?thesis
      by (cases r) (simp_all add: invoke_def wrapper_effects_def wrapper_requests_def)
  qed
qed

lemma fold_invoke_spec:
  "tlog (fold (invoke hp) ws t) = tlog t @ concat (map wrapper_effects ws) \<and>
   map payload (callbacks (fold (invoke hp) ws t)) =
     map payload (callbacks t) @ concat (map wrapper_requests ws) \<and>
   pending (fold (invoke hp) ws t) = (pending t \<or> concat (map wrapper_requests ws) \<noteq> []) \<and>
   timers (fold (invoke hp) ws t) =
     timers t + (if \<not> pending t \<and> concat (map wrapper_requests ws) \<noteq> [] then 1 else 0)"
proof (induction ws arbitrary: t)
  case Nil
  then show ?case by simp
next
  case (Cons w ws)
  from Cons.IH [of "invoke hp w t"] invoke_spec [of hp w t] show ?case by auto
qed

text \<open>
  Claim C8, as the code has it. \<open>flushCallbacks\<close> clears \<open>pending\<close> and empties the
  queue, then runs the closures of its copy in queue order: the log grows by what each
  closure leaves, one after the other, and a callback that throws leaves its markers up
  to the throw and one call of \<^verbatim>\<open>handleError\<close>, after which the next closure runs
  (first conjunct). The queue afterwards holds exactly the closures of the
  \<^verbatim>\<open>nextTick\<close> calls made by the callbacks that ran, none of which has run; \<open>pending\<close>
  is set and one more flush is handed to the platform exactly when there is such a call.
  \<open>nextTick\<close> without a callback returns a Promise only where the platform has
  \<^verbatim>\<open>Promise\<close>; that Promise is resolved with \<open>ctx\<close> when the flush reaches its
  closure, after the closures queued before it. Without \<^verbatim>\<open>Promise\<close> the call returns
  \<^verbatim>\<open>undefined\<close> and its closure does nothing.
\<close>

theorem flushCallbacks_drains_snapshot:
  "tlog (flushCallbacks hasPromise t) = tlog t @ concat (map wrapper_effects (callbacks t)) \<and>
   map payload (callbacks (flushCallbacks hasPromise t)) =
     concat (map wrapper_requests (callbacks t)) \<and>
   pending (flushCallbacks hasPromise t) = (concat (map wrapper_requests (callbacks t)) \<noteq> []) \<and>
   timers (flushCallbacks hasPromise t) =
     timers t + (if concat (map wrapper_requests (callbacks t)) = [] then 0 else 1) \<and>
   nextTick hasPromise cb ctx t =
     (if cb = None \<and> hasPromise then Some (promises t) else None,
      t\<lparr>callbacks := callbacks t @
           [Wrapper cb ctx (if cb = None \<and> hasPromise then Some (promises t) else None)],
        pending := True,
        timers := (if pending t then timers t else Suc (timers t)),
        promises := (if cb = None \<and> hasPromise then Suc (promises t) else promises t)\<rparr>) \<and>
   tlog (flushCallbacks hasPromise (snd (nextTick hasPromise None ctx t))) =
     tlog t @ concat (map wrapper_effects (callbacks t)) @
     (if hasPromise then [Resolved (promises t) ctx] else [])"
proof -
  have n: "nextTick hasPromise cb ctx t =
     (if cb = None \<and> hasPromise then Some (promises t) else None,
      t\<lparr>callbacks := callbacks t @
           [Wrapper cb ctx (if cb = None \<and> hasPromise then Some (promises t) else None)],
        pending := True,
        timers := (if pending t then timers t else Suc (timers t)),
        promises := (if cb = None \<and> hasPromise then Suc (promises t) else promises t)\<rparr>)" for cb
    by (simp add: nextTick_def timerFunc_def Let_def)
  have f: "tlog (flushCallbacks hasPromise u) = tlog u @ concat (map wrapper_effects (callbacks u)) \<and>
     map payload (callbacks (flushCallbacks hasPromise u)) =
       concat (map wrapper_requests (callbacks u)) \<and>
     pending (flushCallbacks hasPromise u) = (concat (map wrapper_requests (callbacks u)) \<noteq> []) \<and>
     timers (flushCallbacks hasPromise u) =
       timers u + (if concat (map wrapper_requests (callbacks u)) = [] then 0 else 1)" for u
    using fold_invoke_spec [of hasPromise "callbacks u" "u\<lparr>pending := False, callbacks := []\<rparr>"]
    by (simp add: flushCallbacks_def Let_def)
  have "tlog (flushCallbacks hasPromise (snd (nextTick hasPromise None ctx t))) =
     tlog t @ concat (map wrapper_effects (callbacks t)) @
     (if hasPromise then [Resolved (promises t) ctx] else [])"
    using f [of "snd (nextTick hasPromise None ctx t)"]
    by (simp add: n wrapper_effects_def)
  with n [of cb] f [of t] show ?thesis by simp
qed

theorem flushCallbacks_drains_snapshot_witness:
  "tlog (flushCallbacks True queued) =
     [Ran 1, Ran 2, Ran 3, Handled ''boom'' ''nextTick'', Resolved 0 (Str ''vm''), Ran 5] \<and>
   map payload (callbacks (flushCallbacks True queued)) = [(Some [Emit 9], Undefined)] \<and>
   pending (flushCallbacks True queued) \<and>
   timers (flushCallbacks True queued) = 2 \<and>
   fst (nextTick True None (Str ''later'') queued) = Some 1 \<and>
   tlog (flushCallbacks True (snd (nextTick True None (Str ''later'') queued))) =
     [Ran 1, Ran 2, Ran 3, Handled ''boom'' ''nextTick'', Resolved 0 (Str ''vm''), Ran 5,
      Resolved 1 (Str ''later'')]"
proof -
  note th = flushCallbacks_drains_snapshot [of True queued None "Str ''later''"]
  note c1 = th [THEN conjunct1]
  note c2 = th [THEN conjunct2, THEN conjunct1]
  note c3 = th [THEN conjunct2, THEN conjunct2, THEN conjunct1]
  note c4 = th [THEN conjunct2, THEN conjunct2, THEN conjunct2, THEN conjunct1]
  note c5 = th [THEN conjunct2, THEN conjunct2, THEN conjunct2, THEN conjunct2, THEN conjunct1]
  note c6 = th [THEN conjunct2, THEN conjunct2, THEN conjunct2, THEN conjunct2, THEN conjunct2]
  have q: "callbacks queued =
       [Wrapper (Some [Emit 1, Schedule (Some [Emit 9]) Undefined, Emit 2]) Undefined None,
        Wrapper (Some [Emit 3, Fail ''boom'', Emit 4]) Undefined None,
        Wrapper None (Str ''vm'') (Some 0),
        Wrapper (Some [Emit 5]) Undefined None]"
    "tlog queued = []" "timers queued = 1" "promises queued = 1"
    by (simp_all add: queued_def)
  have "tlog (flushCallbacks True queued) =
     [Ran 1, Ran 2, Ran 3, Handled ''boom'' ''nextTick'', Resolved 0 (Str ''vm''), Ran 5]"
    unfolding c1 by (simp add: q wrapper_effects_def)
  moreover have "map payload (callbacks (flushCallbacks True queued)) = [(Some [Emit 9], Undefined)]"
    unfolding c2 by (simp add: q wrapper_requests_def)
  moreover have "pending (flushCallbacks True queued)"
    unfolding c3 by (simp add: q wrapper_requests_def)
  moreover have "timers (flushCallbacks True queued) = 2"
    unfolding c4 by (simp add: q wrapper_requests_def)
  moreover have "fst (nextTick True None (Str ''later'') queued) = Some 1"
    unfolding c5 by (simp add: q)
  moreover have "tlog (flushCallbacks True (snd (nextTick True None (Str ''later'') queued))) =
     [Ran 1, Ran 2, Ran 3, Handled ''boom'' ''nextTick'', Resolved 0 (Str ''vm''), Ran 5,
      Resolved 1 (Str ''later'')]"
    unfolding c6 by (simp add: q wrapper_effects_def)
  ultimately show ?thesis by simp
qed

text \<open>
  Claim C8 as stated fails where \<^verbatim>\<open>typeof Promise\<close> is \<^verbatim>\<open>'undefined'\<close>:
  \<^verbatim>\<open>nextTick()\<close> returns no Promise, and the flush resolves nothing.
\<close>

theorem nextTick_without_Promise_returns_nothing:
  "fst (nextTick False None (Str ''vm'') idle) = None \<and>
   callbacks (flushCallbacks False (snd (nextTick False None (Str ''vm'') idle))) = [] \<and>
   tlog (flushCallbacks False (snd (nextTick False None (Str ''vm'') idle))) = []"
  by (simp add: nextTick_def idle_def timerFunc_def flushCallbacks_def invoke_def)
section \<open>Properties of traverse\<close>

lemma selfloop_diverges:
  assumes "traverse_rec h task seen = Some y"
  shows "h = selfloop \<longrightarrow> task \<noteq> Inl (Ref 1) \<and> task \<noteq> Inr [Ref 1]"
proof (rule traverse_rec.raw_induct
    [where P = "\<lambda>h task seen y. h = selfloop \<longrightarrow> task \<noteq> Inl (Ref 1) \<and> task \<noteq> Inr [Ref 1]",
      OF _ assms])
  fix tr :: "(addr \<Rightarrow> node option) \<Rightarrow> jsval + jsval list \<Rightarrow> nat set \<Rightarrow> nat set option"
    and h task seen y
  assume IH: "\<And>h' task' seen' y'. tr h' task' seen' = Some y' \<Longrightarrow>
      h' = selfloop \<longrightarrow> task' \<noteq> Inl (Ref 1) \<and> task' \<noteq> Inr [Ref 1]"
    and eq: "(case task of
        Inl x \<Rightarrow>
          (case x of
             Ref a \<Rightarrow>
               (case h a of
                  None \<Rightarrow> Some seen
                | Some n \<Rightarrow>
                    if frozen n \<or> isVNode n then Some seen
                    else (case obDepId n of
                            Some depId \<Rightarrow>
                              if depId \<in> seen then Some seen
                              else tr h (Inr (rev (children n))) (insert depId seen)
                          | None \<Rightarrow> tr h (Inr (rev (children n))) seen))
           | _ \<Rightarrow> Some seen)
      | Inr [] \<Rightarrow> Some seen
      | Inr (v # vs) \<Rightarrow>
          Option.bind (tr h (Inl v) seen) (\<lambda>seen'. tr h (Inr vs) seen')) = Some y"
  show "h = selfloop \<longrightarrow> task \<noteq> Inl (Ref 1) \<and> task \<noteq> Inr [Ref 1]"
  proof (intro impI conjI notI)
    assume h: "h = selfloop" and t: "task = Inl (Ref 1)"
    with eq have "tr h (Inr [Ref 1]) seen = Some y" by (simp add: selfloop_def)
    from IH [OF this] h show False by simp
  next
    assume h: "h = selfloop" and t: "task = Inr [Ref 1]"
    with eq obtain s where "tr h (Inl (Ref 1)) seen = Some s"
      by (auto simp: bind_eq_Some_conv)
    from IH [OF this] h show False by simp
  qed
qed

text \<open>
  Claim C10 as stated fails: on the finite graph \<open>selfloop\<close>, an object without Observer
  that refers to itself, \<^verbatim>\<open>_traverse\<close> calls itself on the same object with the same
  \<open>seen\<close> for ever, \<open>traverse\<close> does not return and \<^verbatim>\<open>seenObjects.clear()\<close> is not
  reached.
\<close>

theorem traverse_unobserved_cycle_diverges: "traverse selfloop (Ref 1) {} = None"
proof (cases "traverse_rec selfloop (Inl (Ref 1)) {}")
  case None
  then show ?thesis by (simp add: traverse_def)
next
  case (Some y)
  from selfloop_diverges [OF this] show ?thesis by simp
qed

lemma lex3:
  "a' \<le> a \<Longrightarrow> b' \<le> b \<Longrightarrow> c' < c \<Longrightarrow>
   ((a', b', c'), (a, b, c)) \<in> less_than <*lex*> less_than <*lex*> less_than"
  for a a' b b' c c' :: nat
  by auto

lemma lex3_first:
  "a' < a \<Longrightarrow> ((a', b', c'), (a, b, c)) \<in> less_than <*lex*> less_than <*lex*> less_than"
  for a a' b b' c c' :: nat
  by auto

lemma lex3_second:
  "a' \<le> a \<Longrightarrow> b' < b \<Longrightarrow>
   ((a', b', c'), (a, b, c)) \<in> less_than <*lex*> less_than <*lex*> less_than"
  for a a' b b' c c' :: nat
  by auto

lemma finite_depIds_of: "finite (dom h) \<Longrightarrow> finite (depIds_of h)"
proof -
  assume "finite (dom h)"
  then have "finite ((\<lambda>a. the (obDepId (the (h a)))) ` dom h)" by simp
  moreover have "depIds_of h \<subseteq> (\<lambda>a. the (obDepId (the (h a)))) ` dom h"
    by (force simp: depIds_of_def)
  ultimately show ?thesis by (rule rev_finite_subset)
qed

lemma card_unseen_mono:
  "finite D \<Longrightarrow> seen \<subseteq> seen' \<Longrightarrow> card (D - seen') \<le> card (D - seen)"
  by (rule card_mono) auto

lemma card_unseen_less:
  "finite D \<Longrightarrow> d \<in> D \<Longrightarrow> d \<notin> seen \<Longrightarrow> card (D - insert d seen) < card (D - seen)"
  by (rule psubset_card_mono) auto

lemma traverse_rec_total:
  fixes rank :: "addr \<Rightarrow> nat"
  assumes fin: "finite (dom h)"
    and rank: "descends h rank"
  shows "\<exists>seen'. traverse_rec h task seen = Some seen' \<and> seen \<subseteq> seen'"
proof -
  define D where "D = depIds_of h"
  have finD: "finite D" unfolding D_def using fin by (rule finite_depIds_of)
  define rk where "rk v = (case v of Ref a \<Rightarrow> if unmarked h a then Suc (rank a) else 0 | _ \<Rightarrow> 0)"
    for v
  define weight where
    "weight t = (case t of Inl v \<Rightarrow> rk v | Inr vs \<Rightarrow> fold max (map rk vs) 0)" for t
  define len where
    "len t = (case t of Inl v \<Rightarrow> 0 | Inr vs \<Rightarrow> Suc (length vs))" for t :: "jsval + jsval list"
  define R where "R = inv_image (less_than <*lex*> less_than <*lex*> less_than)
      (\<lambda>(t, s). (card (D - s), weight t, len t))"
  have wfR: "wf R" unfolding R_def by (intro wf_inv_image wf_lex_prod wf_less_than)
  have fold_max_ge: "m \<le> fold max xs m" for xs and m :: nat
    by (induction xs arbitrary: m) (auto intro: order_trans [OF max.cobounded2])
  have fold_max_mono: "m \<le> m' \<Longrightarrow> fold max xs m \<le> fold max xs m'" for xs and m m' :: nat
    by (induction xs arbitrary: m m') (auto simp: max.mono)
  have fold_max_bound: "(\<And>x. x \<in> set xs \<Longrightarrow> x \<le> b) \<Longrightarrow> m \<le> b \<Longrightarrow> fold max xs m \<le> b"
    for xs and m b :: nat
    by (induction xs arbitrary: m) auto
  have "\<exists>seen'. traverse_rec h (fst x) (snd x) = Some seen' \<and> snd x \<subseteq> seen'" for x
    using wfR
  proof (induction x rule: wf_induct_rule)
    case (less x)
    obtain task seen where x: "x = (task, seen)" by (cases x)
    have IH: "\<exists>seen'. traverse_rec h t s = Some seen' \<and> s \<subseteq> seen'"
      if "((card (D - s), weight t, len t), (card (D - seen), weight task, len task))
            \<in> less_than <*lex*> less_than <*lex*> less_than" for t s
      using less [of "(t, s)"] that by (simp add: x R_def)
    have "\<exists>seen'. traverse_rec h task seen = Some seen' \<and> seen \<subseteq> seen'"
    proof (cases task)
      case (Inl v)
      show ?thesis
      proof (cases "\<exists>a n. v = Ref a \<and> h a = Some n \<and> \<not> frozen n \<and> \<not> isVNode n")
        case False
        then have "traverse_rec h task seen = Some seen"
          by (subst traverse_rec.simps) (auto simp: Inl split: jsval.splits option.splits)
        then show ?thesis by simp
      next
        case True
        then obtain a n where v: "v = Ref a" and n: "h a = Some n" "\<not> frozen n" "\<not> isVNode n"
          by blast
        show ?thesis
        proof (cases "obDepId n")
          case None
          have um: "unmarked h a" using n None by (simp add: unmarked_def)
          have eq: "traverse_rec h task seen = traverse_rec h (Inr (rev (children n))) seen"
            by (subst traverse_rec.simps) (simp add: Inl v n None)
          have "rk c \<le> rank a" if "c \<in> set (children n)" for c
          proof (cases "\<exists>b. c = Ref b \<and> unmarked h b")
            case True
            then obtain b where "c = Ref b" "unmarked h b" by blast
            with rank n(1) um that have "rank b < rank a" unfolding descends_def by blast
            with \<open>c = Ref b\<close> \<open>unmarked h b\<close> show ?thesis by (simp add: rk_def)
          next
            case False
            then show ?thesis by (auto simp: rk_def split: jsval.splits)
          qed
          then have "fold max (map rk (rev (children n))) 0 \<le> rank a"
            by (intro fold_max_bound) auto
          then have "weight (Inr (rev (children n))) < weight task"
            using um by (simp add: weight_def Inl v rk_def)
          from IH [OF lex3_second [OF order_refl this]] eq show ?thesis by simp
        next
          case (Some d)
          show ?thesis
          proof (cases "d \<in> seen")
            case True
            have "traverse_rec h task seen = Some seen"
              by (subst traverse_rec.simps) (simp add: Inl v n Some True)
            then show ?thesis by simp
          next
            case False
            have eq: "traverse_rec h task seen =
                traverse_rec h (Inr (rev (children n))) (insert d seen)"
              by (subst traverse_rec.simps) (simp add: Inl v n Some False)
            have "d \<in> D" using n(1) Some by (auto simp: D_def depIds_of_def)
            from card_unseen_less [OF finD this False]
            have "card (D - insert d seen) < card (D - seen)" .
            from IH [OF lex3_first [OF this]] eq show ?thesis by auto
          qed
        qed
      qed
    next
      case (Inr vs)
      show ?thesis
      proof (cases vs)
        case Nil
        have "traverse_rec h task seen = Some seen"
          by (subst traverse_rec.simps) (simp add: Inr Nil)
        then show ?thesis by simp
      next
        case (Cons v ws)
        have eq: "traverse_rec h task seen =
            Option.bind (traverse_rec h (Inl v) seen) (\<lambda>seen'. traverse_rec h (Inr ws) seen')"
          by (subst traverse_rec.simps) (simp add: Inr Cons)
        have w1: "weight (Inl v) \<le> weight task"
          using fold_max_ge [of "max (rk v) 0" "map rk ws"]
          by (simp add: weight_def Inr Cons)
        have w2: "weight (Inr ws) \<le> weight task"
          using fold_max_mono [of 0 "max (rk v) 0" "map rk ws"]
          by (simp add: weight_def Inr Cons)
        have "len (Inl v) < len task" by (simp add: len_def Inr)
        from IH [OF lex3 [OF order_refl w1 this]]
        obtain s1 where s1: "traverse_rec h (Inl v) seen = Some s1" "seen \<subseteq> s1" by blast
        have "len (Inr ws) < len task" by (simp add: len_def Inr Cons)
        from IH [OF lex3 [OF card_unseen_mono [OF finD s1(2)] w2 this]]
        obtain s2 where s2: "traverse_rec h (Inr ws) s1 = Some s2" "s1 \<subseteq> s2" by blast
        from eq s1 s2 show ?thesis by auto
      qed
    qed
    then show ?case by (simp add: x)
  qed
  from this [of "(task, seen)"] show ?thesis by simp
qed

text \<open>
  Claim C10, as the code has it. On a finite heap in which no cycle runs only through
  objects that are neither frozen, nor VNodes, nor observed, \<^verbatim>\<open>_traverse\<close> returns from
  every call, with a \<open>seen\<close> that has only grown: at once and with \<open>seen\<close> unchanged
  on a value that is no object, on a frozen object, on a VNode, and on an object whose
  Observer's dep id is already in \<open>seen\<close>; otherwise with that dep id recorded. Then
  \<open>traverse\<close> returns and leaves the shared set empty. Cycles among observed objects are
  allowed.
\<close>

theorem traverse_terminates:
  fixes rank :: "addr \<Rightarrow> nat"
  assumes fin: "finite (dom h)"
    and rank: "descends h rank"
  shows "(\<exists>seen'. traverse_rec h (Inl x) seen = Some seen' \<and> seen \<subseteq> seen' \<and>
            (case x of
               Ref a \<Rightarrow>
                 (case h a of
                    None \<Rightarrow> seen' = seen
                  | Some n \<Rightarrow>
                      if frozen n \<or> isVNode n then seen' = seen
                      else (case obDepId n of
                              None \<Rightarrow> True
                            | Some depId \<Rightarrow> depId \<in> seen' \<and> (if depId \<in> seen then seen' = seen else True)))
             | _ \<Rightarrow> seen' = seen)) \<and>
         traverse h x seen = Some {}"
proof -
  from traverse_rec_total [OF fin rank]
  obtain s where s: "traverse_rec h (Inl x) seen = Some s" "seen \<subseteq> s" by blast
  have "case x of
               Ref a \<Rightarrow>
                 (case h a of
                    None \<Rightarrow> s = seen
                  | Some n \<Rightarrow>
                      if frozen n \<or> isVNode n then s = seen
                      else (case obDepId n of
                              None \<Rightarrow> True
                            | Some depId \<Rightarrow> depId \<in> s \<and> (if depId \<in> seen then s = seen else True)))
             | _ \<Rightarrow> s = seen"
  proof (cases "\<exists>a n d. x = Ref a \<and> h a = Some n \<and> \<not> frozen n \<and> \<not> isVNode n \<and>
      obDepId n = Some d \<and> d \<notin> seen")
    case True
    then obtain a n d where v: "x = Ref a" "h a = Some n" "\<not> frozen n" "\<not> isVNode n"
      "obDepId n = Some d" "d \<notin> seen" by blast
    then have "traverse_rec h (Inl x) seen = traverse_rec h (Inr (rev (children n))) (insert d seen)"
      by (subst traverse_rec.simps) simp
    with s(1) traverse_rec_total [OF fin rank, of "Inr (rev (children n))" "insert d seen"]
    have "d \<in> s" by auto
    with v show ?thesis by simp
  next
    case False
    with s(1) show ?thesis
      by (subst (asm) traverse_rec.simps) (auto split: jsval.splits option.splits)
  qed
  with s show ?thesis by (simp add: traverse_def)
qed

theorem traverse_terminates_witness:
  "finite (dom graph0) \<and> descends graph0 rank0 \<and>
   traverse_rec graph0 (Inl (Ref 1)) {} = Some {10, 11} \<and>
   traverse graph0 (Ref 1) {} = Some {}"
proof -
  have fin: "finite (dom graph0)" by (simp add: graph0_def)
  have d: "descends graph0 rank0"
    by (auto simp: descends_def graph0_def unmarked_def rank0_def split: if_splits)
  have r: "traverse_rec graph0 (Inl (Ref 1)) {} = Some {10, 11}"
    by (simp add: traverse_rec.simps graph0_def)
  from traverse_terminates [OF fin d, of "Ref 1" "{}"] have "traverse graph0 (Ref 1) {} = Some {}"
    by simp
  with fin d r show ?thesis by simp
qed
section \<open>Properties of the accessor installer\<close>

lemma getter_events:
  "\<forall>e \<in> set (snd (reactiveGetter tgt isArr u f)). \<not> own_call e"
  "\<forall>r. getter_call tgt isArr u a = Some r \<longrightarrow> (\<forall>e \<in> set (snd r). \<not> own_call e)"
  by (induction tgt isArr u f and tgt isArr u a rule: reactiveGetter_getter_call.induct)
    (auto simp: own_call_def split: option.splits prod.splits)

lemma current_events: "current tgt isArr u f = (value, gev) \<Longrightarrow> filter own_call gev = []"
  using getter_events(2) [of tgt isArr u "pre f"]
  by (auto simp: current_def filter_empty_conv split: option.splits)

lemma nan_test:
  "(\<not> strict_eq newVal newVal \<and> \<not> strict_eq value value) = (newVal = NaN \<and> value = NaN)"
  by (auto simp: strict_eq_def)

lemma rs_same:
  assumes "current tgt isArr u f = (value, gev)"
    and "strict_eq newVal value \<or> (newVal = NaN \<and> value = NaN)"
  shows "reactiveSetter dev tgt isArr obs newVal u f = (f, u, gev)"
proof (cases f)
  case (RField v ch d p sh cs)
  with assms(1)
  have g: "(case getter_call tgt isArr u p of Some r \<Rightarrow> r | None \<Rightarrow> (v, [])) = (value, gev)"
    by (auto simp: current_def split: option.splits)
  show ?thesis using assms(2-) by (auto simp: RField g nan_test Let_def)
qed

lemma rs_getter_only:
  assumes "current tgt isArr u f = (value, gev)"
    and "\<not> (strict_eq newVal value \<or> (newVal = NaN \<and> value = NaN))"
    and "has_getter (pre f) \<and> \<not> has_setter (pre f)"
  shows "reactiveSetter dev tgt isArr obs newVal u f =
    (f, u, gev @ (if dev \<and> customSetter f then [CustomSetter] else []))"
proof (cases f)
  case (RField v ch d p sh cs)
  with assms(1)
  have g: "(case getter_call tgt isArr u p of Some r \<Rightarrow> r | None \<Rightarrow> (v, [])) = (value, gev)"
    by (auto simp: current_def split: option.splits)
  show ?thesis using assms(2-) by (auto simp: RField g nan_test Let_def)
qed

lemma rs_store:
  assumes "current tgt isArr u f = (value, gev)"
    and "\<not> (strict_eq newVal value \<or> (newVal = NaN \<and> value = NaN))"
    and "\<not> (has_getter (pre f) \<and> \<not> has_setter (pre f))"
    and "setter_call dev tgt isArr obs newVal u (pre f) = None"
  shows "reactiveSetter dev tgt isArr obs newVal u f =
    (RField newVal (if shallow f then None else obs newVal) (dep f) (pre f) (shallow f)
       (customSetter f), u,
     gev @ (if dev \<and> customSetter f then [CustomSetter] else []) @
       (if shallow f then [] else [Observe newVal]) @ [Notify (dep f)])"
proof (cases f)
  case (RField v ch d p sh cs)
  with assms(1)
  have g: "(case getter_call tgt isArr u p of Some r \<Rightarrow> r | None \<Rightarrow> (v, [])) = (value, gev)"
    by (auto simp: current_def split: option.splits)
  show ?thesis using assms(2-) by (auto simp: RField g nan_test Let_def)
qed

lemma rs_setter:
  assumes "current tgt isArr u f = (value, gev)"
    and "\<not> (strict_eq newVal value \<or> (newVal = NaN \<and> value = NaN))"
    and "\<not> (has_getter (pre f) \<and> \<not> has_setter (pre f))"
    and "setter_call dev tgt isArr obs newVal u (pre f) = Some (p', u'', sev)"
  shows "reactiveSetter dev tgt isArr obs newVal u f =
    (RField (val f) (if shallow f then None else obs newVal) (dep f) p' (shallow f)
       (customSetter f), u'',
     gev @ (if dev \<and> customSetter f then [CustomSetter] else []) @ sev @
       (if shallow f then [] else [Observe newVal]) @ [Notify (dep f)])"
proof (cases f)
  case (RField v ch d p sh cs)
  with assms(1)
  have g: "(case getter_call tgt isArr u p of Some r \<Rightarrow> r | None \<Rightarrow> (v, [])) = (value, gev)"
    by (auto simp: current_def split: option.splits)
  show ?thesis using assms(2-) by (auto simp: RField g nan_test Let_def)
qed

text \<open>
  Claim C1, as the code has it. A write of a value that is \<^verbatim>\<open>===\<close> to the current
  value, or where both are \<open>NaN\<close>, leaves the closure and the user state as they are
  and calls neither \<^verbatim>\<open>observe\<close> nor \<^verbatim>\<open>notify\<close>. So does any write to a field that
  has a getter and no setter, where at most \<^verbatim>\<open>customSetter\<close> is called. Any other write
  stores the new value (in \<^verbatim>\<open>val\<close>, or by calling the setter replaced), sets
  \<^verbatim>\<open>childOb\<close> to what \<^verbatim>\<open>observe(newVal)\<close> returns unless the field is shallow (then
  \<^verbatim>\<open>observe\<close> is not called and \<^verbatim>\<open>childOb\<close> is cleared), and calls \<^verbatim>\<open>notify\<close> on
  the field's Dep once, as its last call.
\<close>

theorem reactiveSetter_write:
  assumes s: "reactiveSetter dev tgt isArr obs newVal u f = (f', u', evs)"
    and c: "current tgt isArr u f = (value, gev)"
  shows "if strict_eq newVal value \<or> (newVal = NaN \<and> value = NaN)
         then f' = f \<and> u' = u \<and> evs = gev \<and> filter own_call evs = []
         else if has_getter (pre f) \<and> \<not> has_setter (pre f)
         then f' = f \<and> u' = u \<and>
              filter own_call evs = (if dev \<and> customSetter f then [CustomSetter] else [])
         else childOb f' = (if shallow f then None else obs newVal) \<and>
              dep f' = dep f \<and> shallow f' = shallow f \<and> customSetter f' = customSetter f \<and>
              (case setter_call dev tgt isArr obs newVal u (pre f) of
                 None \<Rightarrow> val f' = newVal \<and> pre f' = pre f \<and> u' = u \<and>
                   filter own_call evs =
                     (if dev \<and> customSetter f then [CustomSetter] else []) @
                     (if shallow f then [] else [Observe newVal]) @ [Notify (dep f)]
               | Some (p', u'', sev) \<Rightarrow> val f' = val f \<and> pre f' = p' \<and> u' = u'' \<and>
                   filter own_call evs =
                     (if dev \<and> customSetter f then [CustomSetter] else []) @
                     filter own_call sev @
                     (if shallow f then [] else [Observe newVal]) @ [Notify (dep f)])"
proof -
  note ge = current_events [OF c]
  have own: "own_call CustomSetter" "own_call (Observe newVal)" "own_call (Notify (dep f))"
    by (simp_all add: own_call_def)
  show ?thesis
  proof (cases "strict_eq newVal value \<or> (newVal = NaN \<and> value = NaN)")
    case True
    from rs_same [OF c True, of dev obs] s ge True show ?thesis by simp
  next
    case False
    note differs = this
    show ?thesis
    proof (cases "has_getter (pre f) \<and> \<not> has_setter (pre f)")
      case True
      from rs_getter_only [OF c differs True, of dev obs] s
      have "f' = f" "u' = u" "evs = gev @ (if dev \<and> customSetter f then [CustomSetter] else [])"
        by simp_all
      with ge own(1) differs True show ?thesis by simp
    next
      case False
      show ?thesis
      proof (cases "setter_call dev tgt isArr obs newVal u (pre f)")
        case None
        from rs_store [OF c differs False None] s
        have r: "f' = RField newVal (if shallow f then None else obs newVal) (dep f) (pre f)
            (shallow f) (customSetter f)" "u' = u"
          "evs = gev @ (if dev \<and> customSetter f then [CustomSetter] else []) @
             (if shallow f then [] else [Observe newVal]) @ [Notify (dep f)]"
          by simp_all
        have "filter own_call evs =
            (if dev \<and> customSetter f then [CustomSetter] else []) @
            (if shallow f then [] else [Observe newVal]) @ [Notify (dep f)]"
          unfolding r(3) using ge own by simp
        with r(1,2) None differs False show ?thesis by simp
      next
        case (Some r)
        obtain p' u'' sev where r: "r = (p', u'', sev)" by (cases r)
        from rs_setter [OF c differs False Some [unfolded r]] s
        have q: "f' = RField (val f) (if shallow f then None else obs newVal) (dep f) p'
            (shallow f) (customSetter f)" "u' = u''"
          "evs = gev @ (if dev \<and> customSetter f then [CustomSetter] else []) @ sev @
             (if shallow f then [] else [Observe newVal]) @ [Notify (dep f)]"
          by simp_all
        have "filter own_call evs =
            (if dev \<and> customSetter f then [CustomSetter] else []) @ filter own_call sev @
            (if shallow f then [] else [Observe newVal]) @ [Notify (dep f)]"
          unfolding q(3) using ge own by simp
        with q(1,2) Some r differs False show ?thesis by simp
      qed
    qed
  qed
qed

lemma reactiveGetter_value:
  "fst (reactiveGetter tgt isArr u f) = fst (current tgt isArr u f)"
  by (cases f) (auto simp: current_def split: option.splits prod.splits)

text \<open>
  Claim C9, as the code has it. When \<^verbatim>\<open>defineReactive\<close> installs a field over a
  property that has an accessor pair \<open>a\<close>, the field holds that very pair. If the pair
  has a getter, \<^verbatim>\<open>reactiveGetter\<close> returns what that getter returns: the user's
  function applied to the user state, or the value of the field installed earlier. If the
  pair has a getter and no setter, every write through \<^verbatim>\<open>reactiveSetter\<close> leaves
  the closure (with \<^verbatim>\<open>val\<close> and \<^verbatim>\<open>childOb\<close>) and the user state unchanged and
  calls nothing but, possibly, \<^verbatim>\<open>customSetter\<close>: neither \<^verbatim>\<open>observe\<close> nor
  \<^verbatim>\<open>notify\<close>; so no write capability is created for such a field. If the pair has
  a setter, a write of a value that differs from the current one hands the value to that
  setter.
\<close>

theorem defineReactive_keeps_accessors:
  assumes "defineReactive tgt isArr obs u d (Some q) valArg cs sh = Some (p, evs)"
    and "slot q = Accessor a"
  shows "\<exists>f. slot p = Accessor (InstalledAccessors f) \<and> pre f = a \<and> dep f = d \<and>
           (\<forall>g s tgt' isArr' u'. a = UserAccessors (Some g) s \<longrightarrow>
              fst (reactiveGetter tgt' isArr' u' f) = g u') \<and>
           (\<forall>f0 tgt' isArr' u'. a = InstalledAccessors f0 \<longrightarrow>
              fst (reactiveGetter tgt' isArr' u' f) = fst (reactiveGetter tgt' isArr' u' f0)) \<and>
           (has_getter a \<and> \<not> has_setter a \<longrightarrow>
              (\<forall>dev tgt' isArr' obs' newVal u'.
                 fst (reactiveSetter dev tgt' isArr' obs' newVal u' f) = f \<and>
                 fst (snd (reactiveSetter dev tgt' isArr' obs' newVal u' f)) = u' \<and>
                 set (snd (snd (reactiveSetter dev tgt' isArr' obs' newVal u' f)))
                   \<subseteq> {CustomSetter})) \<and>
           (\<forall>g sf dev tgt' isArr' obs' newVal u'. a = UserAccessors g (Some sf) \<longrightarrow>
              \<not> (strict_eq newVal (fst (current tgt' isArr' u' f)) \<or>
                 (newVal = NaN \<and> fst (current tgt' isArr' u' f) = NaN)) \<longrightarrow>
              fst (snd (reactiveSetter dev tgt' isArr' obs' newVal u' f)) = sf newVal u')"
proof -
  have acc: "accessors_of (Some q) = a" using assms(2) by (simp add: accessors_of_def)
  from assms(1) obtain v where p: "p = \<lparr>slot = Accessor (InstalledAccessors
        (RField v (if sh then None else obs v) d a sh cs)),
      configurable = True\<rparr>"
    unfolding defineReactive_def acc by (auto simp: Let_def split: if_splits prod.splits)
  define f where "f = RField v (if sh then None else obs v) d a sh cs"
  have pre: "pre f = a" and dep: "dep f = d" by (simp_all add: f_def)
  have get1: "fst (reactiveGetter tgt' isArr' u' f) = g u'"
    if "a = UserAccessors (Some g) s" for g s tgt' isArr' u'
    using that by (simp add: reactiveGetter_value current_def pre)
  have get2: "fst (reactiveGetter tgt' isArr' u' f) = fst (reactiveGetter tgt' isArr' u' f0)"
    if "a = InstalledAccessors f0" for f0 tgt' isArr' u'
    using that by (simp add: reactiveGetter_value [of tgt' isArr' u' f] current_def pre)
  have set1: "fst (reactiveSetter dev tgt' isArr' obs' newVal u' f) = f \<and>
      fst (snd (reactiveSetter dev tgt' isArr' obs' newVal u' f)) = u' \<and>
      set (snd (snd (reactiveSetter dev tgt' isArr' obs' newVal u' f))) \<subseteq> {CustomSetter}"
    if go: "has_getter a \<and> \<not> has_setter a"
    for dev tgt' isArr' obs' newVal u'
  proof -
    from go obtain g where a: "a = UserAccessors (Some g) None"
      by (cases a) auto
    have c: "current tgt' isArr' u' f = (g u', [])" by (simp add: current_def pre a)
    show ?thesis
    proof (cases "strict_eq newVal (g u') \<or> (newVal = NaN \<and> g u' = NaN)")
      case True
      from rs_same [OF c True] show ?thesis by simp
    next
      case False
      from rs_getter_only [OF c False, of dev obs'] go pre show ?thesis by auto
    qed
  qed
  have set2: "fst (snd (reactiveSetter dev tgt' isArr' obs' newVal u' f)) = sf newVal u'"
    if a: "a = UserAccessors g (Some sf)"
      and n: "\<not> (strict_eq newVal (fst (current tgt' isArr' u' f)) \<or>
                 (newVal = NaN \<and> fst (current tgt' isArr' u' f) = NaN))"
    for g sf dev tgt' isArr' obs' newVal u'
  proof -
    obtain x gev where c: "current tgt' isArr' u' f = (x, gev)"
      by (cases "current tgt' isArr' u' f")
    have h: "\<not> (has_getter (pre f) \<and> \<not> has_setter (pre f))" by (simp add: pre a)
    have sc: "setter_call dev tgt' isArr' obs' newVal u' (pre f) =
        Some (UserAccessors g (Some sf), sf newVal u', [])"
      by (simp add: pre a)
    from n c have n': "\<not> (strict_eq newVal x \<or> (newVal = NaN \<and> x = NaN))" by simp
    from rs_setter [OF c n' h sc] show ?thesis by simp
  qed
  show ?thesis
    by (rule exI [of _ f]) (use p pre dep get1 get2 set1 set2 in \<open>simp add: f_def\<close>)
qed

theorem reactiveSetter_write_witness:
  "reactiveSetter True False no_arrays unobserved (Num 2) Null (plain_field (Num 1)) =
     (plain_field (Num 2), Null, [CustomSetter, Observe (Num 2), Notify 3]) \<and>
   current False no_arrays Null (plain_field (Num 1)) = (Num 1, []) \<and>
   \<not> strict_eq (Num 2) (Num 1) \<and>
   filter own_call [CustomSetter, Observe (Num 2), Notify 3] =
     [CustomSetter, Observe (Num 2), Notify (dep (plain_field (Num 1)))] \<and>
   reactiveSetter True False no_arrays unobserved NaN Null (plain_field NaN) =
     (plain_field NaN, Null, [])"
proof -
  have s: "reactiveSetter True False no_arrays unobserved (Num 2) Null (plain_field (Num 1)) =
     (plain_field (Num 2), Null, [CustomSetter, Observe (Num 2), Notify 3])"
    by (simp add: plain_field_def unobserved_def strict_eq_def)
  have c: "current False no_arrays Null (plain_field (Num 1)) = (Num 1, [])"
    by (simp add: current_def plain_field_def)
  have n: "\<not> strict_eq (Num 2) (Num 1)" by (simp add: strict_eq_def)
  have s2: "reactiveSetter True False no_arrays unobserved NaN Null (plain_field NaN) =
     (plain_field NaN, Null, [])"
    by (simp add: plain_field_def unobserved_def strict_eq_def)
  from reactiveSetter_write [OF s c] n
  have "filter own_call [CustomSetter, Observe (Num 2), Notify 3] =
     [CustomSetter, Observe (Num 2), Notify (dep (plain_field (Num 1)))]"
    by (simp add: plain_field_def)
  with s c n s2 show ?thesis by simp
qed

text \<open>
  Claim C1 as stated fails on a field installed over a property that has a getter and no
  setter: the value written differs from the current one, and yet nothing is stored,
  \<^verbatim>\<open>observe\<close> is not called and \<^verbatim>\<open>notify\<close> is not called.
\<close>

theorem reactiveSetter_getter_only_ignores_write:
  "defineReactive False no_arrays unobserved (Num 1) 7
     (Some \<lparr>slot = Accessor readonly, configurable = True\<rparr>) None False False =
     Some (\<lparr>slot = Accessor (InstalledAccessors readonly_field), configurable = True\<rparr>,
           [Observe Undefined]) \<and>
   current False no_arrays (Num 1) readonly_field = (Num 1, []) \<and>
   \<not> strict_eq (Num 2) (Num 1) \<and>
   reactiveSetter False False no_arrays unobserved (Num 2) (Num 1) readonly_field =
     (readonly_field, Num 1, [])"
  by (simp add: defineReactive_def accessors_of_def readonly_def readonly_field_def
      current_def strict_eq_def unobserved_def)

theorem defineReactive_keeps_accessors_witness:
  "defineReactive False no_arrays unobserved (Num 1) 7
     (Some \<lparr>slot = Accessor readonly, configurable = True\<rparr>) None False False =
     Some (\<lparr>slot = Accessor (InstalledAccessors readonly_field), configurable = True\<rparr>,
           [Observe Undefined]) \<and>
   slot \<lparr>slot = Accessor readonly, configurable = True\<rparr> = Accessor readonly \<and>
   has_getter readonly \<and> \<not> has_setter readonly \<and>
   fst (reactiveGetter True no_arrays (Num 1) readonly_field) = Num 1 \<and>
   reactiveSetter True False no_arrays unobserved (Num 2) (Num 1) readonly_field =
     (readonly_field, Num 1, []) \<and>
   defineReactive False no_arrays unobserved (Num 1) 7
     (Some \<lparr>slot = Accessor readwrite, configurable = True\<rparr>) None False False =
     Some (\<lparr>slot = Accessor (InstalledAccessors readwrite_field), configurable = True\<rparr>,
           [Observe (Num 1)]) \<and>
   fst (reactiveGetter True no_arrays (Num 5) readwrite_field) = Num 5 \<and>
   \<not> strict_eq (Num 2) (fst (current False no_arrays (Num 5) readwrite_field)) \<and>
   fst (snd (reactiveSetter True False no_arrays unobserved (Num 2) (Num 5) readwrite_field)) =
     Num 2"
proof -
  let ?ro = "\<lparr>slot = Accessor readonly, configurable = True\<rparr>"
  let ?rw = "\<lparr>slot = Accessor readwrite, configurable = True\<rparr>"
  have d: "defineReactive False no_arrays unobserved (Num 1) 7 (Some ?ro) None False False =
     Some (\<lparr>slot = Accessor (InstalledAccessors readonly_field), configurable = True\<rparr>,
           [Observe Undefined])"
    by (simp add: defineReactive_def accessors_of_def readonly_def readonly_field_def
        unobserved_def)
  have sl: "slot ?ro = Accessor readonly" "slot ?rw = Accessor readwrite" by simp_all
  have h: "has_getter readonly" "\<not> has_setter readonly" by (simp_all add: readonly_def)
  from defineReactive_keeps_accessors [OF d sl(1)] h
  have g: "fst (reactiveGetter True no_arrays (Num 1) readonly_field) = (\<lambda>u. u) (Num 1)"
    and w: "fst (reactiveSetter True False no_arrays unobserved (Num 2) (Num 1) readonly_field) =
        readonly_field \<and>
      fst (snd (reactiveSetter True False no_arrays unobserved (Num 2) (Num 1) readonly_field)) =
        Num 1 \<and>
      set (snd (snd (reactiveSetter True False no_arrays unobserved (Num 2) (Num 1) readonly_field)))
        \<subseteq> {CustomSetter}"
    by (auto simp: readonly_def)
  have w1: "reactiveSetter True False no_arrays unobserved (Num 2) (Num 1) readonly_field =
     (readonly_field, Num 1, [])"
    by (simp add: readonly_field_def readonly_def strict_eq_def)
  have d2: "defineReactive False no_arrays unobserved (Num 1) 7 (Some ?rw) None False False =
     Some (\<lparr>slot = Accessor (InstalledAccessors readwrite_field), configurable = True\<rparr>,
           [Observe (Num 1)])"
    by (simp add: defineReactive_def accessors_of_def readwrite_def readwrite_field_def
        unobserved_def read_property_def)
  have n: "\<not> strict_eq (Num 2) (fst (current False no_arrays (Num 5) readwrite_field))"
    by (simp add: current_def readwrite_field_def readwrite_def strict_eq_def)
  from defineReactive_keeps_accessors [OF d2 sl(2)]
  have g2: "fst (reactiveGetter True no_arrays (Num 5) readwrite_field) = (\<lambda>u. u) (Num 5)"
    and w2: "\<not> (strict_eq (Num 2) (fst (current False no_arrays (Num 5) readwrite_field)) \<or>
          (Num 2 = NaN \<and> fst (current False no_arrays (Num 5) readwrite_field) = NaN)) \<longrightarrow>
       fst (snd (reactiveSetter True False no_arrays unobserved (Num 2) (Num 5) readwrite_field)) =
         (\<lambda>newVal u. newVal) (Num 2) (Num 5)"
    by (auto simp: readwrite_def)
  from w2 n have w3:
    "fst (snd (reactiveSetter True False no_arrays unobserved (Num 2) (Num 5) readwrite_field)) =
       Num 2" by simp
  from d sl(1) h g w1 d2 g2 n w3 show ?thesis by simp
qed

text \<open>
  Claim C9 as stated fails in its last clause on an accessor property that has neither
  getter nor setter: nothing can be written to it (there is no setter to call), and the
  field that \<^verbatim>\<open>defineReactive\<close> installs over it stores what is written, calls
  \<^verbatim>\<open>observe\<close> and \<^verbatim>\<open>notify\<close>, and returns the value written when read.
\<close>

theorem defineReactive_makes_bare_accessor_writable:
  "setter_call False False no_arrays unobserved (Num 2) Null bare = None \<and>
   defineReactive False no_arrays unobserved Null 7
     (Some \<lparr>slot = Accessor bare, configurable = True\<rparr>) None False False =
     Some (\<lparr>slot = Accessor (InstalledAccessors bare_field), configurable = True\<rparr>,
           [Observe Undefined]) \<and>
   reactiveSetter False False no_arrays unobserved (Num 2) Null bare_field =
     (RField (Num 2) None 7 bare False False, Null, [Observe (Num 2), Notify 7]) \<and>
   fst (reactiveGetter False no_arrays Null (RField (Num 2) None 7 bare False False)) = Num 2"
  by (simp add: defineReactive_def accessors_of_def bare_def bare_field_def read_property_def
      strict_eq_def unobserved_def)
section \<open>Properties of array interception, set and del\<close>


lemma observeArray_events: "observeArray items w = emit (map Observe items) w"
proof (induction items arbitrary: w)
  case Nil
  then show ?case by (simp add: observeArray_def emit_def)
next
  case (Cons i items)
  have "observeArray (i # items) w = observeArray items (emit [Observe i] w)"
    by (simp add: observeArray_def)
  with Cons [of "emit [Observe i] w"] show ?case by (simp add: emit_def)
qed

lemma mutator_run:
  "ob this = Some b \<Longrightarrow>
   mutator original method args a this w =
     (Inr (snd (original method args (elems this))),
      w\<lparr>heap := (heap w)(a \<mapsto> this\<lparr>elems := fst (original method args (elems this))\<rparr>),
        events := events w @ [Apply method args] @ map Observe (inserted_by method args) @
          [Notify (obDep b)]\<rparr>)"
  by (cases "method")
    (simp_all add: mutator_def split_def Let_def observeArray_events emit_def inserted_by_def)







text \<open>
  Claim C4. For each of the seven methods, called on an array that has an Observer,
  \<open>mutator\<close> first applies the original method, then calls \<^verbatim>\<open>observe\<close> on every
  inserted element in order (all arguments for \<^verbatim>\<open>push\<close> and \<^verbatim>\<open>unshift\<close>, the
  arguments after the first two for \<^verbatim>\<open>splice\<close>, none for the others), and last calls
  \<^verbatim>\<open>notify\<close> on the Observer's Dep; it returns the original method's result, and the
  array holds the elements the original method left, so the notification follows the
  mutation.
\<close>

theorem mutator_mutates_observes_notifies:
  assumes "ob this = Some b"
  shows "mutator original method args a this w =
     (Inr (snd (original method args (elems this))),
      w\<lparr>heap := (heap w)(a \<mapsto> this\<lparr>elems := fst (original method args (elems this))\<rparr>),
        events := events w @ [Apply method args] @ map Observe (inserted_by method args) @
          [Notify (obDep b)]\<rparr>)"
  using assms by (rule mutator_run)

theorem mutator_mutates_observes_notifies_witness:
  "ob array0 = Some \<lparr>obDep = 5, vmCount = 0\<rparr> \<and>
   mutator sample_original Splice [Num 1, Num 1, Str ''x'', Str ''y''] 1 array0 world0 =
     (Inr (Fresh [Num 2]),
      world0\<lparr>heap := (heap world0)(1 \<mapsto> array0\<lparr>elems := [Num 1, Str ''x'', Str ''y'', Num 3]\<rparr>),
        events := [Apply Splice [Num 1, Num 1, Str ''x'', Str ''y''], Observe (Str ''x''),
          Observe (Str ''y''), Notify 5]\<rparr>)"
proof -
  have o: "ob array0 = Some \<lparr>obDep = 5, vmCount = 0\<rparr>" by (simp add: array0_def)
  have e: "elems array0 = [Num 1, Num 2, Num 3]" "events world0 = []"
    by (simp_all add: array0_def world0_def)
  from mutator_mutates_observes_notifies [OF o, of sample_original Splice
      "[Num 1, Num 1, Str ''x'', Str ''y'']" 1 world0] o
  show ?thesis by (simp add: e sample_original_def inserted_by_def)
qed




end
